theory Spec2Isabelle
  imports Main "HOL-Library.Sublist"
begin

section \<open>JavaScript strings\<close>

text \<open>
  A JavaScript string is a sequence of UTF-16 code units. A code unit is modelled by its
  number (a \<open>nat\<close>; no property below depends on the bound \<open>2 ^ 16\<close>), so that the
  non-ASCII defaults of the parser and the Unicode members of the regular-expression
  classes \<open>\s\<close> and \<open>.\<close> are what they are in the program.
\<close>

type_synonym jsstring = "nat list"

definition str :: "string \<Rightarrow> jsstring" where
  "str s = map of_char s"

definition LF :: nat where
  "LF = 0x0A"

text \<open>ECMAScript \<open>LineTerminator\<close>: the characters \<open>.\<close> refuses and after which \<open>^\<close>
  matches under the \<open>m\<close> flag.\<close>

definition isLineTerminator :: "nat \<Rightarrow> bool" where
  "isLineTerminator c \<longleftrightarrow> c = 0x0A \<or> c = 0x0D \<or> c = 0x2028 \<or> c = 0x2029"

text \<open>The class \<open>\s\<close>, which is also what \<open>String.prototype.trim\<close> strips:
  \<open>WhiteSpace\<close> and \<open>LineTerminator\<close>.\<close>

definition isWhiteSpace :: "nat \<Rightarrow> bool" where
  "isWhiteSpace c \<longleftrightarrow>
     c = 0x09 \<or> c = 0x0A \<or> c = 0x0B \<or> c = 0x0C \<or> c = 0x0D \<or> c = 0x20 \<or> c = 0xA0 \<or>
     c = 0x1680 \<or> (0x2000 \<le> c \<and> c \<le> 0x200A) \<or> c = 0x2028 \<or> c = 0x2029 \<or>
     c = 0x202F \<or> c = 0x205F \<or> c = 0x3000 \<or> c = 0xFEFF"

text \<open>The class \<open>\d\<close> (no \<open>u\<close> flag): the ASCII digits.\<close>

definition isDigit :: "nat \<Rightarrow> bool" where
  "isDigit c \<longleftrightarrow> 0x30 \<le> c \<and> c \<le> 0x39"

text \<open>\<open>hay.indexOf(needle)\<close>: the least index at which \<open>needle\<close> occurs, \<open>None\<close> for
  the program's \<open>-1\<close>.\<close>

fun indexOf :: "'a list \<Rightarrow> 'a list \<Rightarrow> nat option" where
  "indexOf [] needle = (if needle = [] then Some 0 else None)"
| "indexOf (c # cs) needle =
     (if prefix needle (c # cs) then Some 0 else map_option Suc (indexOf cs needle))"

text \<open>\<open>s.trim()\<close>.\<close>

definition trim :: "jsstring \<Rightarrow> jsstring" where
  "trim s = rev (dropWhile isWhiteSpace (rev (dropWhile isWhiteSpace s)))"

text \<open>\<open>s.split('\n')\<close>: never empty, one more piece than there are line feeds.\<close>

fun split :: "jsstring \<Rightarrow> jsstring list" where
  "split [] = [[]]"
| "split (c # cs) =
     (if c = LF then [] # split cs
      else (case split cs of [] \<Rightarrow> [[c]] | l # ls \<Rightarrow> (c # l) # ls))"

text \<open>\<open>lines.join('\n')\<close>.\<close>

fun join :: "jsstring list \<Rightarrow> jsstring" where
  "join [] = []"
| "join [l] = l"
| "join (l # ls) = l @ LF # join ls"

text \<open>\<open>xs.findIndex(p)\<close>, \<open>None\<close> for \<open>-1\<close>.\<close>

fun findIndex :: "('a \<Rightarrow> bool) \<Rightarrow> 'a list \<Rightarrow> nat option" where
  "findIndex p [] = None"
| "findIndex p (x # xs) = (if p x then Some 0 else map_option Suc (findIndex p xs))"

text \<open>
  A number as the program holds it, a double, for the numbers \<open>parseInt\<close> can make of a
  run of digits. An integer up to \<open>2 ^ 53\<close> is held exactly. Above that the double is
  the one nearest to the integer (or, for more than 20 digits, the engine's approximation
  of it), which need not be the integer: \<open>Rounded n\<close> stands for that double.
\<close>

datatype jsnumber = Exact nat | Rounded nat

text \<open>The integer a run of ASCII digits writes.\<close>

definition decimal :: "jsstring \<Rightarrow> nat" where
  "decimal ds = foldl (\<lambda>n c. 10 * n + (c - 0x30)) 0 ds"

text \<open>\<open>parseInt(ds, 10)\<close> on a non-empty run of ASCII digits.\<close>

definition parseInt :: "jsstring \<Rightarrow> jsnumber" where
  "parseInt ds =
     (let n = decimal ds in if n \<le> 9007199254740992 then Exact n else Rounded n)"


section \<open>The three header regular expressions\<close>

text \<open>
  \<open>header.match(re)\<close> with a non-global \<open>re\<close> tries the pattern at the start indices
  \<open>0, 1, 2, ...\<close> and returns the first success. All three patterns begin with \<open>^\<close>
  under the \<open>m\<close> flag, so a start index can succeed only at index 0 or right after a
  line terminator. \<open>execAtLineStarts m atStart s\<close> runs the rest of the pattern, \<open>m\<close>,
  at those indices of \<open>s\<close>; \<open>atStart\<close> says whether the current index is one of them.
\<close>

fun execAtLineStarts :: "(jsstring \<Rightarrow> 'a option) \<Rightarrow> bool \<Rightarrow> jsstring \<Rightarrow> 'a option" where
  "execAtLineStarts m atStart [] = (if atStart then m [] else None)"
| "execAtLineStarts m atStart (c # cs) =
     (case (if atStart then m (c # cs) else None) of
        Some r \<Rightarrow> Some r
      | None \<Rightarrow> execAtLineStarts m (isLineTerminator c) cs)"

text \<open>Matching a literal: what follows it, if the text starts with it.\<close>

fun afterLiteral :: "jsstring \<Rightarrow> jsstring \<Rightarrow> jsstring option" where
  "afterLiteral [] s = Some s"
| "afterLiteral (p # ps) [] = None"
| "afterLiteral (p # ps) (c # cs) = (if p = c then afterLiteral ps cs else None)"

text \<open>
  \<open>score:\s*(\d+)\<close> at one index; the value is capture group 1. \<open>\s*\<close> is greedy and
  the engine would backtrack into it, but a shorter run of white space leaves a white
  space character in front of \<open>\d+\<close>, which no digit is: the match succeeds exactly when
  a digit follows the longest run, and group 1 is then the longest run of digits.
\<close>

definition scoreRegex :: "jsstring \<Rightarrow> jsstring option" where
  "scoreRegex s =
     (case afterLiteral (str ''score:'') s of
        None \<Rightarrow> None
      | Some r \<Rightarrow>
          (let ds = takeWhile isDigit (dropWhile isWhiteSpace r)
           in if ds = [] then None else Some ds))"

text \<open>
  \<open>name\s*(.*)\<close> at one index, for \<open>name\<close> one of \<open>evaluation:\<close> and
  \<open>correctedSentence:\<close>. Both quantifiers are greedy and nothing follows them, so the
  first attempt succeeds: \<open>\s*\<close> takes all the white space there is, line terminators
  included, and group 1 is what follows up to the next line terminator.
\<close>

definition lineRegex :: "jsstring \<Rightarrow> jsstring \<Rightarrow> jsstring option" where
  "lineRegex name s =
     (case afterLiteral name s of
        None \<Rightarrow> None
      | Some r \<Rightarrow> Some (takeWhile (\<lambda>c. \<not> isLineTerminator c) (dropWhile isWhiteSpace r)))"

record structuredData =
  score :: jsnumber
  evaluation :: jsstring
  correctedSentence :: jsstring

definition defaultEvaluation :: jsstring where
  "defaultEvaluation = [0x8BC4, 0x4EF7, 0x672A, 0x63D0, 0x4F9B]"

definition defaultCorrection :: jsstring where
  "defaultCorrection = str ''(AI did not provide a correction.)''"

text \<open>The field extraction, which the program writes out twice in the same words: once
  in the chunk loop and once in the fallback after it.\<close>

definition parseHeaders :: "jsstring \<Rightarrow> structuredData" where
  "parseHeaders header =
     \<lparr> score =
         (case execAtLineStarts scoreRegex True header of
            Some ds \<Rightarrow> parseInt ds | None \<Rightarrow> Exact 0),
       evaluation =
         (case execAtLineStarts (lineRegex (str ''evaluation:'')) True header of
            Some g \<Rightarrow> trim g | None \<Rightarrow> defaultEvaluation),
       correctedSentence =
         (case execAtLineStarts (lineRegex (str ''correctedSentence:'')) True header of
            Some g \<Rightarrow> trim g | None \<Rightarrow> defaultCorrection) \<rparr>"


section \<open>evaluateSentenceStream\<close>

text \<open>
  The model's answer arrives as an asynchronous iterator. Each step of the iteration
  either yields a chunk, whose \<open>text\<close> is a string or \<open>undefined\<close>, or throws; a
  rejected \<open>generateContentStream\<close> is a stream that throws at its first step. The
  iterator of one HTTP response is finite.

  The three callbacks are the effects of the function. Their invocations are logged in
  order; the callbacks themselves are taken not to throw.
\<close>

datatype streamItem = Chunk "jsstring option" | Throws

datatype call =
    OnStructuredData structuredData
  | OnExplanationChunk jsstring
  | OnStreamEnd

datatype error = StreamError

record parser =
  buffer :: jsstring
  headersParsed :: bool
  calls :: "call list"

definition invoke :: "call \<Rightarrow> parser \<Rightarrow> parser" where
  "invoke c s = s\<lparr>calls := calls s @ [c]\<rparr>"

definition separator :: jsstring where
  "separator = [LF, 0x2D, 0x2D, 0x2D, 0x20, LF]"

definition errorMessage :: jsstring where
  "errorMessage =
     [LF, LF] @ str ''**Error:** Failed to get feedback from the AI. Please try again.''"

text \<open>The body of the \<open>for await\<close> loop, for one chunk.\<close>

definition onChunk :: "jsstring option \<Rightarrow> parser \<Rightarrow> parser" where
  "onChunk chunkText s =
     (case chunkText of
        None \<Rightarrow> s
      | Some text \<Rightarrow>
          if text = [] then s
          else if headersParsed s then invoke (OnExplanationChunk text) s
          else
            (let buf = buffer s @ text in
             case indexOf buf separator of
               None \<Rightarrow> s\<lparr>buffer := buf\<rparr>
             | Some separatorIndex \<Rightarrow>
                 (let header = take separatorIndex buf;
                      s1 = invoke (OnStructuredData (parseHeaders header))
                             (s\<lparr>buffer := buf, headersParsed := True\<rparr>);
                      firstChunk = drop (separatorIndex + length separator) buf
                  in if firstChunk \<noteq> [] then invoke (OnExplanationChunk firstChunk) s1
                     else s1)))"

text \<open>The loop: it ends when the stream does, or with the error the stream throws.\<close>

fun forAwait :: "streamItem list \<Rightarrow> parser \<Rightarrow> parser \<times> (error + unit)" where
  "forAwait [] s = (s, Inr ())"
| "forAwait (Throws # rest) s = (s, Inl StreamError)"
| "forAwait (Chunk t # rest) s = forAwait rest (onChunk t s)"

text \<open>The fallback's guess when there is no separator: the explanation starts after the
  line of the corrected sentence.\<close>

definition guessExplanation :: "jsstring \<Rightarrow> jsstring" where
  "guessExplanation headers =
     (let lines = split headers in
      case findIndex (prefix (str ''correctedSentence:'')) lines of
        None \<Rightarrow> []
      | Some correctedLineIndex \<Rightarrow>
          if correctedLineIndex + 1 < length lines
          then trim (join (drop (correctedLineIndex + 1) lines))
          else [])"

text \<open>The fallback after the loop, for a stream that ended before the separator came.\<close>

definition fallback :: "parser \<Rightarrow> parser" where
  "fallback s =
     (if \<not> headersParsed s \<and> buffer s \<noteq> [] then
        (let headerPart = buffer s;
             separatorIndex = indexOf headerPart separator;
             headers = (case separatorIndex of
                          Some i \<Rightarrow> take i headerPart | None \<Rightarrow> headerPart);
             s1 = invoke (OnStructuredData (parseHeaders headers)) s;
             explanation =
               (case separatorIndex of
                  Some i \<Rightarrow> drop (i + length separator) headerPart
                | None \<Rightarrow> guessExplanation headers)
         in if explanation \<noteq> [] then invoke (OnExplanationChunk explanation) s1 else s1)
      else s)"

text \<open>The parser's state when the loop starts.\<close>

definition initial :: parser where
  "initial = \<lparr>buffer = [], headersParsed = False, calls = []\<rparr>"

text \<open>The \<open>try\<close> block: the loop, then the fallback unless the loop threw.\<close>

definition tryBlock :: "streamItem list \<Rightarrow> parser \<times> (error + unit)" where
  "tryBlock stream =
     (case forAwait stream initial of
        (s, Inl e) \<Rightarrow> (s, Inl e)
      | (s, Inr u) \<Rightarrow> (fallback s, Inr u))"

text \<open>The whole function: \<open>try\<close>, \<open>catch\<close> (which handles every error and throws
  none), \<open>finally\<close>. The result is the log of callback invocations and how the returned
  promise settles.\<close>

definition evaluateSentenceStream :: "streamItem list \<Rightarrow> call list \<times> (error + unit)" where
  "evaluateSentenceStream stream =
     (let (s, r) = tryBlock stream;
          (s', r') = (case r of
                        Inl e \<Rightarrow> (invoke (OnExplanationChunk errorMessage) s, Inr ())
                      | Inr u \<Rightarrow> (s, Inr u));
          s'' = invoke OnStreamEnd s'
      in (calls s'', r'))"


subsection \<open>What a run is observed by\<close>

text \<open>The text of a chunk (\<open>undefined\<close> counts as empty) and of a stream of chunks.\<close>

definition chunkText :: "jsstring option \<Rightarrow> jsstring" where
  "chunkText t = (case t of None \<Rightarrow> [] | Some text \<Rightarrow> text)"

definition streamText :: "jsstring option list \<Rightarrow> jsstring" where
  "streamText ts = concat (map chunkText ts)"

text \<open>The arguments of the calls of \<open>onStructuredData\<close>, in order, and the
  concatenation of the arguments of the calls of \<open>onExplanationChunk\<close>, which is the
  explanation the caller accumulates and renders.\<close>

fun structuredOf :: "call list \<Rightarrow> structuredData list" where
  "structuredOf [] = []"
| "structuredOf (OnStructuredData d # cs) = d # structuredOf cs"
| "structuredOf (c # cs) = structuredOf cs"

fun explanationText :: "call list \<Rightarrow> jsstring" where
  "explanationText [] = []"
| "explanationText (OnExplanationChunk e # cs) = e @ explanationText cs"
| "explanationText (c # cs) = explanationText cs"

subsection \<open>The fields, said by positions\<close>

text \<open>
  What the three fields are, said without the regular expressions. A line starts at
  index 0 and after every line terminator.
\<close>

definition isLineStart :: "jsstring \<Rightarrow> nat \<Rightarrow> bool" where
  "isLineStart s i \<longleftrightarrow> i = 0 \<or> (i \<le> length s \<and> isLineTerminator (s ! (i - 1)))"

text \<open>The first index at which a line starts and the text from there on has the property
  \<open>P\<close>.\<close>

definition firstLineStart :: "(jsstring \<Rightarrow> bool) \<Rightarrow> jsstring \<Rightarrow> nat option" where
  "firstLineStart P s =
     List.find (\<lambda>i. isLineStart s i \<and> P (drop i s)) [0..<Suc (length s)]"

text \<open>The digits of a score: what stands after \<open>score:\<close> and the white space behind it,
  as far as it is digits.\<close>

definition scoreDigits :: "jsstring \<Rightarrow> jsstring" where
  "scoreDigits t =
     takeWhile isDigit (dropWhile isWhiteSpace (drop (length (str ''score:'')) t))"

text \<open>The text of a field: what stands after the name and the white space behind it, up
  to the next line terminator.\<close>

definition fieldText :: "jsstring \<Rightarrow> jsstring \<Rightarrow> jsstring" where
  "fieldText name t =
     takeWhile (\<lambda>c. \<not> isLineTerminator c) (dropWhile isWhiteSpace (drop (length name) t))"

text \<open>
  The score is read where, for the first time, a line starts with \<open>score:\<close> and digits
  follow after white space; each of the other two fields where, for the first time, a
  line starts with its name.
\<close>

definition fieldsByPosition :: "jsstring \<Rightarrow> structuredData" where
  "fieldsByPosition header =
     \<lparr> score =
         (case firstLineStart (\<lambda>t. prefix (str ''score:'') t \<and> scoreDigits t \<noteq> []) header of
            None \<Rightarrow> Exact 0
          | Some i \<Rightarrow> parseInt (scoreDigits (drop i header))),
       evaluation =
         (case firstLineStart (prefix (str ''evaluation:'')) header of
            None \<Rightarrow> defaultEvaluation
          | Some i \<Rightarrow> trim (fieldText (str ''evaluation:'') (drop i header))),
       correctedSentence =
         (case firstLineStart (prefix (str ''correctedSentence:'')) header of
            None \<Rightarrow> defaultCorrection
          | Some i \<Rightarrow> trim (fieldText (str ''correctedSentence:'') (drop i header))) \<rparr>"

subsection \<open>The evaluation field, read line by line\<close>

text \<open>
  The specification's reading of the evaluation field, to compare \<open>parseHeaders\<close> with:
  the trimmed remainder of the first line that begins with \<open>evaluation:\<close>, and the
  default when no line does.
\<close>

definition spec_evaluation :: "jsstring \<Rightarrow> jsstring" where
  "spec_evaluation header =
     (case List.find (prefix (str ''evaluation:'')) (split header) of
        None \<Rightarrow> defaultEvaluation
      | Some line \<Rightarrow> trim (drop (length (str ''evaluation:'')) line))"



section \<open>The history service\<close>

subsection \<open>JSON values and history items\<close>

text \<open>
  What is stored and what is imported comes out of \<open>JSON.parse\<close> and is only cast to
  \<open>HistoryItem[]\<close>, so it is modelled as the JSON value it is at run time. What
  reading a property of an object gives is a \<open>jsvalue\<close>: \<open>JUndefined\<close> when the
  property is missing, and \<open>JObject s\<close> when it holds an object or an array, of which
  the service can observe only that it is neither a string nor a number, that it is
  identical to no other value, and the string \<open>s\<close> it converts to. A number is an
  integer here: timestamps are \<open>Date.now()\<close>.
\<close>

datatype jsvalue = JUndefined | JNull | JBool bool | JNum int | JStr jsstring | JObject jsstring

text \<open>\<open>a === b\<close>: primitive values are compared by value, and a parsed object is a new
  one each time.\<close>

fun strictEquals :: "jsvalue \<Rightarrow> jsvalue \<Rightarrow> bool" where
  "strictEquals (JObject s) b = False"
| "strictEquals a b = (a = b)"

text \<open>An object, by the properties the service reads; \<open>rest\<close> stands for all the
  others.\<close>

record 'r HistoryItem =
  id' :: jsvalue
  timestamp :: jsvalue
  gameMode :: jsvalue
  chineseSentence :: jsvalue
  userSentence :: jsvalue
  rest :: 'r

text \<open>What \<open>JSON.parse\<close> can return.\<close>

datatype 'r json =
    NullValue
  | BooleanValue bool
  | NumberValue int
  | StringValue jsstring
  | ArrayValue "'r json list"
  | ObjectValue "'r HistoryItem"

datatype jserror = SyntaxError | TypeError | QuotaExceededError | SecurityError

text \<open>Statements in sequence: the next one runs unless this one threw.\<close>

definition andThen :: "jserror + 'a \<Rightarrow> ('a \<Rightarrow> jserror + 'b) \<Rightarrow> jserror + 'b" where
  "andThen r f = (case r of Inl e \<Rightarrow> Inl e | Inr x \<Rightarrow> f x)"

text \<open>\<open>item.p\<close> for one of the properties \<open>p\<close> the service reads: of \<open>null\<close> it throws,
  of an object it is the property, and of any other value it is \<open>undefined\<close>.\<close>

fun property :: "('r HistoryItem \<Rightarrow> jsvalue) \<Rightarrow> 'r json \<Rightarrow> jserror + jsvalue" where
  "property p NullValue = Inl TypeError"
| "property p (ObjectValue item) = Inr (p item)"
| "property p v = Inr JUndefined"

text \<open>\<open>Array.isArray(v)\<close>.\<close>

fun isArray :: "'r json \<Rightarrow> bool" where
  "isArray (ArrayValue items) = True"
| "isArray v = False"

text \<open>The iteration of a string goes by code points: a high surrogate followed by a low
  one is one element.\<close>

fun codePoints :: "jsstring \<Rightarrow> jsstring list" where
  "codePoints [] = []"
| "codePoints [c] = [[c]]"
| "codePoints (c # d # cs) =
     (if 0xD800 \<le> c \<and> c \<le> 0xDBFF \<and> 0xDC00 \<le> d \<and> d \<le> 0xDFFF
      then [c, d] # codePoints cs
      else [c] # codePoints (d # cs))"

text \<open>The elements \<open>[...v]\<close> spreads: those of an array, the code points of a string; no
  other JSON value can be iterated.\<close>

fun spread :: "'r json \<Rightarrow> jserror + 'r json list" where
  "spread (ArrayValue items) = Inr items"
| "spread (StringValue s) = Inr (map StringValue (codePoints s))"
| "spread v = Inl TypeError"

text \<open>The receiver of \<open>v.map(...)\<close> and \<open>v.filter(...)\<close>: only an array has these
  methods, and calling what is not there throws.\<close>

fun asArray :: "'r json \<Rightarrow> jserror + 'r json list" where
  "asArray (ArrayValue items) = Inr items"
| "asArray v = Inl TypeError"

text \<open>\<open>items.map(f)\<close> and \<open>items.filter(f)\<close> with a callback that may throw.\<close>

fun arrayMap :: "('a \<Rightarrow> jserror + 'b) \<Rightarrow> 'a list \<Rightarrow> jserror + 'b list" where
  "arrayMap f [] = Inr []"
| "arrayMap f (x # xs) =
     (case f x of
        Inl e \<Rightarrow> Inl e
      | Inr y \<Rightarrow> (case arrayMap f xs of Inl e \<Rightarrow> Inl e | Inr ys \<Rightarrow> Inr (y # ys)))"

fun arrayFilter :: "('a \<Rightarrow> jserror + bool) \<Rightarrow> 'a list \<Rightarrow> jserror + 'a list" where
  "arrayFilter f [] = Inr []"
| "arrayFilter f (x # xs) =
     (case f x of
        Inl e \<Rightarrow> Inl e
      | Inr keep \<Rightarrow>
          (case arrayFilter f xs of
             Inl e \<Rightarrow> Inl e
           | Inr ys \<Rightarrow> Inr (if keep then x # ys else ys)))"

subsection \<open>The backing store\<close>

text \<open>
  \<open>localStorage\<close> holds one string under \<open>HISTORY_KEY\<close>, or nothing. The string is told
  apart by what \<open>JSON.parse\<close> makes of it: it is empty, or \<open>JSON.parse\<close> rejects it, or
  \<open>JSON.parse\<close> returns a value for it, which \<open>JSON.stringify\<close> writes back to the same
  string. Where the browser denies access to the storage, every use of \<open>localStorage\<close>
  throws.

  \<open>setItem\<close> throws when the quota is exceeded; the items carry audio, so the strings
  are long. Which strings the storage refuses is the parameter \<open>refuses\<close> of everything
  that writes.
\<close>

datatype 'r storedText = EmptyText | Malformed | Json "'r json"

datatype 'r store = Unavailable | Holds "'r storedText option"

fun getItem :: "'r store \<Rightarrow> jserror + 'r storedText option" where
  "getItem Unavailable = Inl SecurityError"
| "getItem (Holds historyJson) = Inr historyJson"

fun setItem ::
  "('r storedText \<Rightarrow> bool) \<Rightarrow> 'r storedText \<Rightarrow> 'r store \<Rightarrow> jserror + 'r store" where
  "setItem refuses t Unavailable = Inl SecurityError"
| "setItem refuses t (Holds historyJson) =
     (if refuses t then Inl QuotaExceededError else Inr (Holds (Some t)))"

definition truthy :: "'r storedText \<Rightarrow> bool" where
  "truthy t \<longleftrightarrow> t \<noteq> EmptyText"

fun JSON_parse :: "'r storedText \<Rightarrow> jserror + 'r json" where
  "JSON_parse EmptyText = Inl SyntaxError"
| "JSON_parse Malformed = Inl SyntaxError"
| "JSON_parse (Json v) = Inr v"

definition JSON_stringify :: "'r json \<Rightarrow> 'r storedText" where
  "JSON_stringify v = Json v"

text \<open>A storage that has room for every write, and one whose quota is used up.\<close>

definition roomyStorage :: "'r storedText \<Rightarrow> bool" where
  "roomyStorage t = False"

definition fullStorage :: "'r storedText \<Rightarrow> bool" where
  "fullStorage t = True"

subsection \<open>The operations\<close>

text \<open>
  Every operation wraps its body in \<open>try\<close> and \<open>catch\<close>: the body is a function into
  \<open>jserror + _\<close>, and the handler is the operation's case for \<open>Inl\<close>.

  The \<open>try\<close> block of \<open>getHistory\<close>: it returns the parsed value, falls through
  (\<open>None\<close>), or throws. After the handler, which only logs, and after falling through,
  the function returns the empty array. The result is in \<open>jserror + _\<close> as that of any
  call is.
\<close>

definition getHistoryTry :: "'r store \<Rightarrow> jserror + 'r json option" where
  "getHistoryTry st =
     andThen (getItem st) (\<lambda>stored.
       case stored of
         None \<Rightarrow> Inr None
       | Some historyJson \<Rightarrow>
           if truthy historyJson
           then andThen (JSON_parse historyJson) (\<lambda>v. Inr (Some v))
           else Inr None)"

definition getHistory :: "'r store \<Rightarrow> jserror + 'r json" where
  "getHistory st =
     (case getHistoryTry st of
        Inr (Some v) \<Rightarrow> Inr v
      | Inr None \<Rightarrow> Inr (ArrayValue [])
      | Inl e \<Rightarrow> Inr (ArrayValue []))"

text \<open>The writing operations: a body that throws leaves the store as it was.\<close>

definition addHistoryItemTry ::
  "('r storedText \<Rightarrow> bool) \<Rightarrow> 'r HistoryItem \<Rightarrow> 'r store \<Rightarrow> jserror + 'r store" where
  "addHistoryItemTry refuses newItem st =
     andThen (getHistory st) (\<lambda>currentHistory.
     andThen (spread currentHistory) (\<lambda>items.
       let newHistory = take 100 (ObjectValue newItem # items)
       in setItem refuses (JSON_stringify (ArrayValue newHistory)) st))"

definition addHistoryItem ::
  "('r storedText \<Rightarrow> bool) \<Rightarrow> 'r HistoryItem \<Rightarrow> 'r store \<Rightarrow> 'r store" where
  "addHistoryItem refuses newItem st =
     (case addHistoryItemTry refuses newItem st of Inl e \<Rightarrow> st | Inr st' \<Rightarrow> st')"

definition updateHistoryItemTry ::
  "('r storedText \<Rightarrow> bool) \<Rightarrow> 'r HistoryItem \<Rightarrow> 'r store \<Rightarrow> jserror + 'r store" where
  "updateHistoryItemTry refuses updatedItem st =
     andThen (getHistory st) (\<lambda>currentHistory.
     andThen (asArray currentHistory) (\<lambda>items.
     andThen (arrayMap (\<lambda>item. andThen (property id' item) (\<lambda>i.
                          Inr (if strictEquals i (id' updatedItem) then ObjectValue updatedItem
                               else item)))
                items) (\<lambda>newHistory.
       setItem refuses (JSON_stringify (ArrayValue newHistory)) st)))"

definition updateHistoryItem ::
  "('r storedText \<Rightarrow> bool) \<Rightarrow> 'r HistoryItem \<Rightarrow> 'r store \<Rightarrow> 'r store" where
  "updateHistoryItem refuses updatedItem st =
     (case updateHistoryItemTry refuses updatedItem st of Inl e \<Rightarrow> st | Inr st' \<Rightarrow> st')"

definition deleteHistoryItemTry ::
  "('r storedText \<Rightarrow> bool) \<Rightarrow> jsstring \<Rightarrow> 'r store \<Rightarrow> jserror + 'r store" where
  "deleteHistoryItemTry refuses i st =
     andThen (getHistory st) (\<lambda>currentHistory.
     andThen (asArray currentHistory) (\<lambda>items.
     andThen (arrayFilter (\<lambda>item. andThen (property id' item) (\<lambda>j.
                              Inr (\<not> strictEquals j (JStr i))))
                items) (\<lambda>newHistory.
       setItem refuses (JSON_stringify (ArrayValue newHistory)) st)))"

definition deleteHistoryItem ::
  "('r storedText \<Rightarrow> bool) \<Rightarrow> jsstring \<Rightarrow> 'r store \<Rightarrow> 'r store" where
  "deleteHistoryItem refuses i st =
     (case deleteHistoryItemTry refuses i st of Inl e \<Rightarrow> st | Inr st' \<Rightarrow> st')"

definition deleteMultipleHistoryItemsTry ::
  "('r storedText \<Rightarrow> bool) \<Rightarrow> jsstring list \<Rightarrow> 'r store \<Rightarrow> jserror + 'r store" where
  "deleteMultipleHistoryItemsTry refuses ids st =
     (let idsToDelete = set (map JStr ids) in
      andThen (getHistory st) (\<lambda>currentHistory.
      andThen (asArray currentHistory) (\<lambda>items.
      andThen (arrayFilter (\<lambda>item. andThen (property id' item) (\<lambda>j.
                              Inr (j \<notin> idsToDelete)))
                 items) (\<lambda>newHistory.
        setItem refuses (JSON_stringify (ArrayValue newHistory)) st))))"

definition deleteMultipleHistoryItems ::
  "('r storedText \<Rightarrow> bool) \<Rightarrow> jsstring list \<Rightarrow> 'r store \<Rightarrow> 'r store" where
  "deleteMultipleHistoryItems refuses ids st =
     (case deleteMultipleHistoryItemsTry refuses ids st of Inl e \<Rightarrow> st | Inr st' \<Rightarrow> st')"

subsection \<open>mergeAndSaveHistory\<close>

text \<open>
  The service compares \<open>item.gameMode\<close> with \<open>GameMode.SentenceCheck\<close>, a member the
  enum declaration in the types file does not have. Its value is the parameter
  \<open>sentenceCheck\<close> of everything below.
\<close>

definition mainSentence :: "jsvalue \<Rightarrow> 'r HistoryItem \<Rightarrow> jsvalue" where
  "mainSentence sentenceCheck item =
     (if strictEquals (gameMode item) sentenceCheck then userSentence item
      else chineseSentence item)"

fun isString :: "jsvalue \<Rightarrow> bool" where
  "isString (JStr s) = True"
| "isString v = False"

fun isNumber :: "jsvalue \<Rightarrow> bool" where
  "isNumber (JNum n) = True"
| "isNumber v = False"

text \<open>The objects the merge loop does not skip.\<close>

definition valid :: "jsvalue \<Rightarrow> 'r HistoryItem \<Rightarrow> bool" where
  "valid sentenceCheck item \<longleftrightarrow>
     isString (id' item) \<and> isNumber (timestamp item) \<and>
     isString (mainSentence sentenceCheck item)"

text \<open>A number in a template literal: decimal digits, with a sign when negative (the
  program's rendering for the integers a number holds exactly, those of magnitude up to
  \<open>2 ^ 53\<close>).\<close>

fun digits :: "nat \<Rightarrow> jsstring" where
  "digits n = (if n < 10 then [0x30 + n] else digits (n div 10) @ [0x30 + n mod 10])"

declare digits.simps [simp del]

definition numberToString :: "int \<Rightarrow> jsstring" where
  "numberToString n = (if n < 0 then 0x2D # digits (nat (- n)) else digits (nat n))"

fun toString :: "jsvalue \<Rightarrow> jsstring" where
  "toString (JStr s) = s"
| "toString (JNum n) = numberToString n"
| "toString (JBool b) = (if b then str ''true'' else str ''false'')"
| "toString JNull = str ''null''"
| "toString JUndefined = str ''undefined''"
| "toString (JObject s) = s"

text \<open>The deduplication key of an item: timestamp, a hyphen, main sentence.\<close>

definition key :: "jsvalue \<Rightarrow> 'r HistoryItem \<Rightarrow> jsstring" where
  "key sentenceCheck item =
     toString (timestamp item) @ 0x2D # toString (mainSentence sentenceCheck item)"

text \<open>
  The loop over the combined history. Reading \<open>item.gameMode\<close> throws when the entry is
  \<open>null\<close>. Of an entry that is neither \<open>null\<close> nor an object every property read is
  \<open>undefined\<close>, so its \<open>id\<close> is not a string and the entry is skipped. \<open>historyMap\<close> is a
  JavaScript \<open>Map\<close>, which keeps its keys in the order they were first set: an
  association list that grows at the end.
\<close>

fun mergeLoop ::
  "jsvalue \<Rightarrow> 'r json list \<Rightarrow> (jsstring \<times> 'r HistoryItem) list \<Rightarrow>
   jserror + (jsstring \<times> 'r HistoryItem) list" where
  "mergeLoop sentenceCheck [] historyMap = Inr historyMap"
| "mergeLoop sentenceCheck (NullValue # combined) historyMap = Inl TypeError"
| "mergeLoop sentenceCheck (ObjectValue item # combined) historyMap =
     (if \<not> valid sentenceCheck item then mergeLoop sentenceCheck combined historyMap
      else if key sentenceCheck item \<in> set (map fst historyMap)
           then mergeLoop sentenceCheck combined historyMap
           else mergeLoop sentenceCheck combined
                  (historyMap @ [(key sentenceCheck item, item)]))"
| "mergeLoop sentenceCheck (v # combined) historyMap =
     mergeLoop sentenceCheck combined historyMap"

text \<open>The timestamp the comparator of the sort reads; it is only ever applied to items
  that passed the validation.\<close>

definition timestampOf :: "'r HistoryItem \<Rightarrow> int" where
  "timestampOf item = (case timestamp item of JNum n \<Rightarrow> n | _ \<Rightarrow> 0)"

text \<open>
  \<open>Array.prototype.sort\<close> is stable, so with the comparator
  \<open>(a, b) => b.timestamp - a.timestamp\<close> its result is the one of the stable insertion
  sort on the negated timestamp.
\<close>

definition sortByTimestampDesc :: "'r HistoryItem list \<Rightarrow> 'r HistoryItem list" where
  "sortByTimestampDesc items = sort_key (\<lambda>item. - timestampOf item) items"

text \<open>
  The \<open>try\<close> block: what the function returns from inside it and the store it leaves, or
  the error of the first statement that throws. An import that is not an array returns
  the current history at once.
\<close>

definition mergeTry ::
  "jsvalue \<Rightarrow> ('r storedText \<Rightarrow> bool) \<Rightarrow> 'r json \<Rightarrow> 'r store \<Rightarrow>
   jserror + ('r json \<times> 'r store)" where
  "mergeTry sentenceCheck refuses importedHistory st =
     (if \<not> isArray importedHistory
      then andThen (getHistory st) (\<lambda>currentHistory. Inr (currentHistory, st))
      else
        andThen (getHistory st) (\<lambda>currentHistory.
        andThen (spread currentHistory) (\<lambda>currentItems.
        andThen (spread importedHistory) (\<lambda>importedItems.
        andThen (mergeLoop sentenceCheck (currentItems @ importedItems) []) (\<lambda>historyMap.
          let mergedHistory = sortByTimestampDesc (map snd historyMap);
              finalHistory = ArrayValue (map ObjectValue (take 200 mergedHistory))
          in andThen (setItem refuses (JSON_stringify finalHistory) st) (\<lambda>st'.
               Inr (finalHistory, st')))))))"

text \<open>The function returns a history, or throws if \<open>getHistory\<close> in the handler did, and
  leaves the store as it wrote it.\<close>

definition mergeAndSaveHistory ::
  "jsvalue \<Rightarrow> ('r storedText \<Rightarrow> bool) \<Rightarrow> 'r json \<Rightarrow> 'r store \<Rightarrow>
   (jserror + 'r json) \<times> 'r store" where
  "mergeAndSaveHistory sentenceCheck refuses importedHistory st =
     (case mergeTry sentenceCheck refuses importedHistory st of
        Inr (history, st') \<Rightarrow> (Inr history, st')
      | Inl e \<Rightarrow> (getHistory st, st))"

subsection \<open>Sequences of operations\<close>

datatype 'r operation =
    GetHistory
  | AddHistoryItem "'r HistoryItem"
  | UpdateHistoryItem "'r HistoryItem"
  | DeleteHistoryItem jsstring
  | DeleteMultipleHistoryItems "jsstring list"
  | MergeAndSaveHistory "'r json"

fun perform ::
  "jsvalue \<Rightarrow> ('r storedText \<Rightarrow> bool) \<Rightarrow> 'r operation \<Rightarrow> 'r store \<Rightarrow> 'r store" where
  "perform sentenceCheck refuses GetHistory st = st"
| "perform sentenceCheck refuses (AddHistoryItem newItem) st =
     addHistoryItem refuses newItem st"
| "perform sentenceCheck refuses (UpdateHistoryItem updatedItem) st =
     updateHistoryItem refuses updatedItem st"
| "perform sentenceCheck refuses (DeleteHistoryItem i) st = deleteHistoryItem refuses i st"
| "perform sentenceCheck refuses (DeleteMultipleHistoryItems ids) st =
     deleteMultipleHistoryItems refuses ids st"
| "perform sentenceCheck refuses (MergeAndSaveHistory importedHistory) st =
     snd (mergeAndSaveHistory sentenceCheck refuses importedHistory st)"

text \<open>A sequence of calls, each with what the storage refuses at the time of the call:
  other data of the same origin takes up quota too.\<close>

fun performAll ::
  "jsvalue \<Rightarrow> (('r storedText \<Rightarrow> bool) \<times> 'r operation) list \<Rightarrow> 'r store \<Rightarrow> 'r store" where
  "performAll sentenceCheck [] st = st"
| "performAll sentenceCheck ((refuses, operation) # steps) st =
     performAll sentenceCheck steps (perform sentenceCheck refuses operation st)"

subsection \<open>Objects among entries, and an example item\<close>

text \<open>The entries of an array that are objects, in order.\<close>

fun objects :: "'r json list \<Rightarrow> 'r HistoryItem list" where
  "objects [] = []"
| "objects (ObjectValue item # entries) = item # objects entries"
| "objects (v # entries) = objects entries"

text \<open>An item as the application records it for an exercise finished at time \<open>n\<close>, with
  the properties the service reads.\<close>

definition practiceItem :: "nat \<Rightarrow> unit HistoryItem" where
  "practiceItem n =
     \<lparr> id' = JStr (digits n), timestamp = JNum (int n), gameMode = JStr (str ''TRANSLATION''),
       chineseSentence = JStr (str ''s''), userSentence = JStr (str ''u''), rest = () \<rparr>"

text \<open>The key as the specification names it: the pair of timestamp and main sentence.\<close>

definition keyPair :: "jsvalue \<Rightarrow> 'r HistoryItem \<Rightarrow> jsvalue \<times> jsvalue" where
  "keyPair sentenceCheck item = (timestamp item, mainSentence sentenceCheck item)"

section \<open>Facts about indexOf\<close>

text \<open>\<open>indexOf\<close> returns an occurrence, the least one, and appending text does not move it.\<close>


lemma indexOf_bound: "indexOf h n = Some i \<Longrightarrow> i + length n \<le> length h"
proof (induction h arbitrary: i)
  case Nil
  then show ?case by (simp split: if_splits)
next
  case (Cons c cs)
  show ?case
  proof (cases "prefix n (c # cs)")
    case True
    with Cons.prems have "i = 0" by simp
    with prefix_length_le [OF True] show ?thesis by simp
  next
    case False
    with Cons.prems obtain j where "indexOf cs n = Some j" "i = Suc j" by auto
    with Cons.IH show ?thesis by fastforce
  qed
qed

lemma indexOf_occurs: "indexOf h n = Some i \<Longrightarrow> prefix n (drop i h)"
proof (induction h arbitrary: i)
  case Nil
  then show ?case by (simp split: if_splits)
next
  case (Cons c cs)
  then show ?case by (auto split: if_splits)
qed

lemma indexOf_least: "indexOf h n = Some i \<Longrightarrow> j < i \<Longrightarrow> \<not> prefix n (drop j h)"
proof (induction h arbitrary: i j)
  case Nil
  then show ?case by (simp split: if_splits)
next
  case (Cons c cs)
  from Cons.prems have np: "\<not> prefix n (c # cs)" by (auto split: if_splits)
  with Cons.prems obtain k where k: "indexOf cs n = Some k" "i = Suc k" by auto
  show ?case
  proof (cases j)
    case 0
    with np show ?thesis by simp
  next
    case (Suc j')
    with Cons.prems k have "j' < k" by simp
    with Cons.IH k Suc show ?thesis by simp
  qed
qed

lemma prefix_append_short:
  "prefix n (h @ t) \<Longrightarrow> length n \<le> length h \<Longrightarrow> prefix n h"
  by (metis prefix_append append_eq_append_conv_if prefix_def take_is_prefix)

lemma indexOf_append: "indexOf h n = Some i \<Longrightarrow> indexOf (h @ t) n = Some i"
proof (induction h arbitrary: i)
  case Nil
  then show ?case by (cases t) (auto split: if_splits)
next
  case (Cons c cs)
  show ?case
  proof (cases "prefix n (c # cs)")
    case True
    with Cons.prems prefix_prefix [OF True, of t] show ?thesis by simp
  next
    case False
    with Cons.prems obtain j where j: "indexOf cs n = Some j" "i = Suc j" by auto
    from indexOf_bound [OF j(1)] have "length n \<le> length (c # cs)" by simp
    with False have "\<not> prefix n ((c # cs) @ t)" using prefix_append_short by blast
    with j Cons.IH show ?thesis by simp
  qed
qed

lemma indexOf_append_None: "indexOf (h @ t) n = None \<Longrightarrow> indexOf h n = None"
  using indexOf_append [of h n _ t] by (cases "indexOf h n") auto


text \<open>An occurrence is found, and the index returned is the one of the first occurrence.\<close>

lemma indexOf_complete:
  "prefix n (drop j h) \<Longrightarrow> j \<le> length h \<Longrightarrow> \<exists>i\<le>j. indexOf h n = Some i"
proof (induction h arbitrary: j)
  case Nil
  then show ?case by simp
next
  case (Cons c cs)
  show ?case
  proof (cases "prefix n (c # cs)")
    case True
    then show ?thesis by simp
  next
    case False
    with Cons.prems obtain j' where j': "j = Suc j'" by (cases j) auto
    with Cons.prems have "prefix n (drop j' cs)" and "j' \<le> length cs" by simp_all
    with Cons.IH obtain i where "i \<le> j'" and "indexOf cs n = Some i" by blast
    with False j' show ?thesis by simp
  qed
qed

lemma indexOf_first_occurrence:
  assumes "h = a @ n @ b"
    and "\<And>a' b'. h = a' @ n @ b' \<Longrightarrow> length a \<le> length a'"
  shows "indexOf h n = Some (length a)"
proof -
  from assms(1) have "prefix n (drop (length a) h)" and "length a \<le> length h" by simp_all
  with indexOf_complete obtain i where i: "i \<le> length a" "indexOf h n = Some i" by blast
  from indexOf_occurs [OF i(2)] obtain r where "drop i h = n @ r" by (auto simp: prefix_def)
  then have "h = take i h @ n @ r" by (metis append_take_drop_id)
  from assms(2) [OF this] i(1) assms(1) have "length a \<le> i" by simp
  with i show ?thesis by simp
qed

lemma indexOf_is_first:
  assumes "indexOf h n = Some i" and "h = a' @ n @ b'"
  shows "i \<le> length a'"
proof (rule ccontr)
  assume "\<not> i \<le> length a'"
  then have "length a' < i" by simp
  from indexOf_least [OF assms(1) this] assms(2) show False by simp
qed

lemma indexOf_None_iff: "indexOf h n = None \<longleftrightarrow> \<not> (\<exists>a b. h = a @ n @ b)"
proof
  assume none: "indexOf h n = None"
  show "\<not> (\<exists>a b. h = a @ n @ b)"
  proof
    assume "\<exists>a b. h = a @ n @ b"
    then obtain a b where "h = a @ n @ b" by blast
    then have "prefix n (drop (length a) h)" and "length a \<le> length h" by simp_all
    with indexOf_complete obtain i where "indexOf h n = Some i" by blast
    with none show False by simp
  qed
next
  assume no: "\<not> (\<exists>a b. h = a @ n @ b)"
  show "indexOf h n = None"
  proof (cases "indexOf h n")
    case None
    then show ?thesis .
  next
    case (Some i)
    from indexOf_occurs [OF Some] obtain r where "drop i h = n @ r" by (auto simp: prefix_def)
    then have "h = take i h @ n @ r" by (metis append_take_drop_id)
    with no show ?thesis by blast
  qed
qed

text \<open>A text that contains \<open>n\<close> splits at a first occurrence of it.\<close>

lemma first_occurrence_exists:
  assumes "h = a @ n @ b"
  shows "\<exists>a0 b0. h = a0 @ n @ b0 \<and> (\<forall>a' b'. h = a' @ n @ b' \<longrightarrow> length a0 \<le> length a')"
proof -
  from assms have "indexOf h n \<noteq> None" by (auto simp: indexOf_None_iff)
  then obtain i where i: "indexOf h n = Some i" by auto
  from indexOf_occurs [OF i] obtain r where "drop i h = n @ r" by (auto simp: prefix_def)
  then have dec: "h = take i h @ n @ r" by (metis append_take_drop_id)
  from indexOf_bound [OF i] have "length (take i h) = i" by simp
  with indexOf_is_first [OF i] have "\<forall>a' b'. h = a' @ n @ b' \<longrightarrow> length (take i h) \<le> length a'"
    by simp
  with dec show ?thesis by blast
qed

section \<open>What the regular expressions extract\<close>

text \<open>
  Each pattern, tried at one index, succeeds exactly when the text there has the shape
  the positional reading asks for; the search over the line starts finds the first such
  index. So \<open>parseHeaders\<close> is \<open>fieldsByPosition\<close>.
\<close>

lemma afterLiteral_prefix:
  "afterLiteral p s = (if prefix p s then Some (drop (length p) s) else None)"
  by (induction p s rule: afterLiteral.induct) auto

lemma scoreRegex_positions:
  "scoreRegex t =
     (if prefix (str ''score:'') t \<and> scoreDigits t \<noteq> [] then Some (scoreDigits t) else None)"
  by (simp add: scoreRegex_def scoreDigits_def afterLiteral_prefix Let_def)

lemma lineRegex_positions:
  "lineRegex name t = (if prefix name t then Some (fieldText name t) else None)"
  by (simp add: lineRegex_def fieldText_def afterLiteral_prefix)

lemma find_mapped: "List.find P (map f xs) = map_option f (List.find (\<lambda>x. P (f x)) xs)"
  by (induction xs) simp_all

lemma indices_Suc: "[0..<Suc (Suc n)] = 0 # map Suc [0..<Suc n]"
proof -
  have "[0..<Suc (Suc n)] = 0 # [Suc 0..<Suc (Suc n)]" by (rule upt_conv_Cons) simp
  then show ?thesis by (simp only: map_Suc_upt)
qed

lemma execAtLineStarts_find:
  "execAtLineStarts m b s =
     (case List.find (\<lambda>i. (if i = 0 then b else i \<le> length s \<and> isLineTerminator (s ! (i - 1)))
                          \<and> m (drop i s) \<noteq> None) [0..<Suc (length s)] of
        None \<Rightarrow> None
      | Some i \<Rightarrow> m (drop i s))"
proof (induction s arbitrary: b)
  case Nil
  then show ?case by auto
next
  case (Cons c cs)
  let ?P = "\<lambda>b s i. (if i = 0 then b else i \<le> length s \<and> isLineTerminator (s ! (i - 1)))
                          \<and> m (drop i s) \<noteq> None"
  have shift: "List.find (\<lambda>j. ?P b (c # cs) (Suc j)) [0..<Suc (length cs)] =
               List.find (?P (isLineTerminator c) cs) [0..<Suc (length cs)]"
  proof (rule find_cong [OF refl])
    fix j assume "j \<in> set [0..<Suc (length cs)]"
    then have "j \<le> length cs" by auto
    then show "?P b (c # cs) (Suc j) = ?P (isLineTerminator c) cs j"
      by (cases j) simp_all
  qed
  let ?F = "List.find (?P (isLineTerminator c) cs) [0..<Suc (length cs)]"
  have idx: "[0..<Suc (length (c # cs))] = 0 # map Suc [0..<Suc (length cs)]"
    unfolding length_Cons by (rule indices_Suc)
  have "List.find (?P b (c # cs)) (0 # map Suc [0..<Suc (length cs)]) =
          (if ?P b (c # cs) 0 then Some 0
           else map_option Suc (List.find (\<lambda>j. ?P b (c # cs) (Suc j)) [0..<Suc (length cs)]))"
    by (simp only: find.simps find_mapped)
  then have whole: "List.find (?P b (c # cs)) [0..<Suc (length (c # cs))] =
          (if b \<and> m (c # cs) \<noteq> None then Some 0 else map_option Suc ?F)"
    unfolding idx shift by simp
  show ?case
  proof (cases "b \<and> m (c # cs) \<noteq> None")
    case True
    then have "execAtLineStarts m b (c # cs) = m (c # cs)" by auto
    with True show ?thesis unfolding whole by simp
  next
    case False
    then have "execAtLineStarts m b (c # cs) = execAtLineStarts m (isLineTerminator c) cs"
      by auto
    also have "\<dots> = (case ?F of None \<Rightarrow> None | Some i \<Rightarrow> m (drop i cs))"
      by (rule Cons.IH)
    also have "\<dots> = (case map_option Suc ?F of None \<Rightarrow> None | Some i \<Rightarrow> m (drop i (c # cs)))"
      by (cases ?F) simp_all
    finally have run: "execAtLineStarts m b (c # cs) =
        (case map_option Suc ?F of None \<Rightarrow> None | Some i \<Rightarrow> m (drop i (c # cs)))" .
    from whole False have "List.find (?P b (c # cs)) [0..<Suc (length (c # cs))] =
        map_option Suc ?F"
      by (simp only: if_False)
    then show ?thesis unfolding run by (simp only:)
  qed
qed

lemma execAtLineStarts_first:
  "execAtLineStarts m True s =
     (case firstLineStart (\<lambda>t. m t \<noteq> None) s of None \<Rightarrow> None | Some i \<Rightarrow> m (drop i s))"
proof -
  have "List.find (\<lambda>i. (if i = 0 then True else i \<le> length s \<and> isLineTerminator (s ! (i - 1)))
                          \<and> m (drop i s) \<noteq> None) [0..<Suc (length s)] =
        firstLineStart (\<lambda>t. m t \<noteq> None) s"
    unfolding firstLineStart_def isLineStart_def
    by (rule find_cong [OF refl]) auto
  then show ?thesis by (simp add: execAtLineStarts_find)
qed

lemma firstLineStart_holds:
  "firstLineStart P s = Some i \<Longrightarrow> P (drop i s)"
  by (auto simp: firstLineStart_def find_Some_iff)

lemma parseHeaders_by_position: "parseHeaders header = fieldsByPosition header"
proof -
  have sc: "(\<lambda>t. scoreRegex t \<noteq> None) = (\<lambda>t. prefix (str ''score:'') t \<and> scoreDigits t \<noteq> [])"
    by (auto simp: scoreRegex_positions)
  have ln: "(\<lambda>t. lineRegex name t \<noteq> None) = prefix name" for name
    by (auto simp: lineRegex_positions)
  have 1: "execAtLineStarts scoreRegex True header =
      (case firstLineStart (\<lambda>t. prefix (str ''score:'') t \<and> scoreDigits t \<noteq> []) header of
         None \<Rightarrow> None | Some i \<Rightarrow> Some (scoreDigits (drop i header)))"
    unfolding execAtLineStarts_first sc
    by (auto split: option.splits dest: firstLineStart_holds simp: scoreRegex_positions)
  have 2: "execAtLineStarts (lineRegex name) True header =
      (case firstLineStart (prefix name) header of
         None \<Rightarrow> None | Some i \<Rightarrow> Some (fieldText name (drop i header)))" for name
    unfolding execAtLineStarts_first ln
    by (auto split: option.splits dest: firstLineStart_holds simp: lineRegex_positions)
  show ?thesis
    unfolding parseHeaders_def fieldsByPosition_def 1 2
    by (simp split: option.splits)
qed

text \<open>
  On a header of the format the prompt prescribes, one field to a line, with spaces
  after each colon, a score of digits, an evaluation that is not blank and a corrected
  sentence, the fields are what the three lines say.
\<close>

lemma exec_here: "m (c # cs) = Some r \<Longrightarrow> execAtLineStarts m True (c # cs) = Some r"
  by simp

lemma exec_in_line:
  "\<forall>d\<in>set xs. \<not> isLineTerminator d \<Longrightarrow>
   execAtLineStarts m False (xs @ LF # after) = execAtLineStarts m True after"
  by (induction xs) (simp_all add: isLineTerminator_def LF_def)

lemma exec_next_line:
  assumes "m (line @ LF # after) = None" and "\<forall>d\<in>set line. \<not> isLineTerminator d"
  shows "execAtLineStarts m True (line @ LF # after) = execAtLineStarts m True after"
proof (cases line)
  case Nil
  with assms show ?thesis by (simp add: isLineTerminator_def LF_def)
next
  case (Cons c xs)
  with assms have "execAtLineStarts m True (line @ LF # after) =
      execAtLineStarts m False (xs @ LF # after)"
    by simp
  also from assms Cons have "\<dots> = execAtLineStarts m True after"
    by (intro exec_in_line) simp
  finally show ?thesis .
qed

lemma skip_then_take:
  assumes "\<forall>c\<in>set sp. P c" and "body = [] \<or> \<not> P (hd body)"
    and "\<forall>c\<in>set body. Q c" and "after = [] \<or> \<not> Q (hd after)"
  shows "takeWhile Q (dropWhile P (sp @ body @ after)) =
           (if body = [] then takeWhile Q (dropWhile P after) else body)"
proof (cases body)
  case Nil
  with assms(1) show ?thesis by (simp add: dropWhile_append2)
next
  case (Cons b bs)
  with assms(2) have "\<not> P b" by simp
  with assms(1) Cons have "dropWhile P (sp @ body @ after) = body @ after"
    by (simp add: dropWhile_append2)
  moreover from assms(3,4) have "takeWhile Q (body @ after) = body"
    by (cases after) (simp_all add: takeWhile_append2)
  ultimately show ?thesis using Cons by simp
qed

lemma space_facts: "isWhiteSpace 0x20" "\<not> isLineTerminator 0x20"
  "isDigit c \<Longrightarrow> \<not> isLineTerminator c" "isDigit c \<Longrightarrow> \<not> isWhiteSpace c"
  "isLineTerminator LF" "\<not> isDigit LF" "isLineTerminator c \<Longrightarrow> isWhiteSpace c"
  by (auto simp: isWhiteSpace_def isLineTerminator_def isDigit_def LF_def)

lemma name_facts:
  "\<forall>c\<in>set (str ''score:''). \<not> isLineTerminator c"
  "\<forall>c\<in>set (str ''evaluation:''). \<not> isLineTerminator c"
  "\<forall>c\<in>set (str ''correctedSentence:''). \<not> isLineTerminator c"
  "\<not> prefix (str ''evaluation:'') (str ''score:'' @ x)"
  "\<not> prefix (str ''correctedSentence:'') (str ''score:'' @ x)"
  "\<not> prefix (str ''correctedSentence:'') (str ''evaluation:'' @ x)"
  by (simp_all add: str_def isLineTerminator_def)

lemma parseHeaders_prompt_format:
  assumes sp: "\<forall>c\<in>set sp1. c = 0x20" "\<forall>c\<in>set sp2. c = 0x20" "\<forall>c\<in>set sp3. c = 0x20"
    and ds: "ds \<noteq> []" "\<forall>c\<in>set ds. isDigit c"
    and ev: "ev \<noteq> []" "\<not> isWhiteSpace (hd ev)" "\<forall>c\<in>set ev. \<not> isLineTerminator c"
    and cs: "cs = [] \<or> \<not> isWhiteSpace (hd cs)" "\<forall>c\<in>set cs. \<not> isLineTerminator c"
  shows "parseHeaders
           (str ''score:'' @ sp1 @ ds @ LF #
            str ''evaluation:'' @ sp2 @ ev @ LF #
            str ''correctedSentence:'' @ sp3 @ cs) =
         \<lparr>score = parseInt ds, evaluation = trim ev, correctedSentence = trim cs\<rparr>"
proof -
  let ?l3 = "str ''correctedSentence:'' @ sp3 @ cs"
  let ?l2 = "str ''evaluation:'' @ sp2 @ ev"
  let ?l1 = "str ''score:'' @ sp1 @ ds"
  let ?h = "?l1 @ LF # ?l2 @ LF # ?l3"
  have h: "str ''score:'' @ sp1 @ ds @ LF # str ''evaluation:'' @ sp2 @ ev @ LF # ?l3 = ?h"
    by simp
  have ws: "\<forall>c\<in>set sp1. isWhiteSpace c" "\<forall>c\<in>set sp2. isWhiteSpace c"
    "\<forall>c\<in>set sp3. isWhiteSpace c"
    using sp space_facts(1) by auto
  have nolt1: "\<forall>d\<in>set ?l1. \<not> isLineTerminator d"
    using sp(1) ds(2) name_facts(1) space_facts(2,3) by auto
  have nolt2: "\<forall>d\<in>set ?l2. \<not> isLineTerminator d"
    using sp(2) ev(3) name_facts(2) space_facts(2) by auto
  have ne1: "str ''score:'' @ x \<noteq> []" for x by (simp add: str_def)
  have ne3: "str ''correctedSentence:'' @ x \<noteq> []" for x by (simp add: str_def)
  have ne2: "str ''evaluation:'' @ x \<noteq> []" for x by (simp add: str_def)
  \<comment> \<open>the score, on the first line\<close>
  have "scoreDigits ?h = takeWhile isDigit (dropWhile isWhiteSpace (sp1 @ ds @ (LF # ?l2 @ LF # ?l3)))"
    by (simp add: scoreDigits_def)
  also have "\<dots> = ds"
    using skip_then_take [of sp1 isWhiteSpace ds isDigit "LF # ?l2 @ LF # ?l3"]
      ws(1) ds space_facts(4,6) by (cases ds) auto
  finally have sd: "scoreDigits ?h = ds" .
  with ds(1) have "scoreRegex ?h = Some ds" by (simp add: scoreRegex_positions)
  moreover obtain c0 r0 where "?h = c0 # r0" using ne1 [of "sp1 @ ds @ LF # ?l2 @ LF # ?l3"]
    by (cases ?h) auto
  ultimately have score: "execAtLineStarts scoreRegex True ?h = Some ds"
    by (simp only: exec_here)
  \<comment> \<open>the evaluation, on the second line\<close>
  have "fieldText (str ''evaluation:'') (?l2 @ LF # ?l3) =
          takeWhile (\<lambda>c. \<not> isLineTerminator c) (dropWhile isWhiteSpace (sp2 @ ev @ (LF # ?l3)))"
    by (simp add: fieldText_def)
  also have "\<dots> = ev"
    using skip_then_take [of sp2 isWhiteSpace ev "\<lambda>c. \<not> isLineTerminator c" "LF # ?l3"]
      ws(2) ev space_facts(5) by auto
  finally have "lineRegex (str ''evaluation:'') (?l2 @ LF # ?l3) = Some ev"
    by (simp add: lineRegex_positions)
  moreover obtain c2 r2 where "?l2 @ LF # ?l3 = c2 # r2" using ne2 [of "sp2 @ ev @ LF # ?l3"]
    by (cases "?l2 @ LF # ?l3") auto
  ultimately have e2: "execAtLineStarts (lineRegex (str ''evaluation:'')) True (?l2 @ LF # ?l3) = Some ev"
    by (simp only: exec_here)
  have "lineRegex (str ''evaluation:'') ?h = None"
    by (simp add: lineRegex_positions name_facts(4))
  from exec_next_line [of "lineRegex (str ''evaluation:'')" ?l1 "?l2 @ LF # ?l3", OF this nolt1] e2
  have eval: "execAtLineStarts (lineRegex (str ''evaluation:'')) True ?h = Some ev"
    by (simp only:)
  \<comment> \<open>the corrected sentence, on the third line\<close>
  have "fieldText (str ''correctedSentence:'') ?l3 =
          takeWhile (\<lambda>c. \<not> isLineTerminator c) (dropWhile isWhiteSpace (sp3 @ cs @ []))"
    by (simp add: fieldText_def)
  also have "\<dots> = cs"
    using skip_then_take [of sp3 isWhiteSpace cs "\<lambda>c. \<not> isLineTerminator c" "[]"]
      ws(3) cs by auto
  finally have "lineRegex (str ''correctedSentence:'') ?l3 = Some cs"
    by (simp add: lineRegex_positions)
  moreover obtain c3 r3 where "?l3 = c3 # r3" using ne3 [of "sp3 @ cs"] by (cases ?l3) auto
  ultimately have c3: "execAtLineStarts (lineRegex (str ''correctedSentence:'')) True ?l3 = Some cs"
    by (simp only: exec_here)
  have "lineRegex (str ''correctedSentence:'') (?l2 @ LF # ?l3) = None"
    by (simp add: lineRegex_positions name_facts(6))
  from exec_next_line [of "lineRegex (str ''correctedSentence:'')" ?l2 ?l3, OF this nolt2] c3
  have c2: "execAtLineStarts (lineRegex (str ''correctedSentence:'')) True (?l2 @ LF # ?l3) = Some cs"
    by (simp only:)
  have "lineRegex (str ''correctedSentence:'') ?h = None"
    by (simp add: lineRegex_positions name_facts(5))
  from exec_next_line [of "lineRegex (str ''correctedSentence:'')" ?l1 "?l2 @ LF # ?l3", OF this nolt1] c2
  have corr: "execAtLineStarts (lineRegex (str ''correctedSentence:'')) True ?h = Some cs"
    by (simp only:)
  show ?thesis
    unfolding h parseHeaders_def score eval corr by simp
qed

section \<open>The chunk loop\<close>

text \<open>One chunk, by the state it meets; then the whole loop over chunks, by whether the
  separator is already behind, still absent at the end, or met on the way.\<close>

lemma onChunk_empty: "chunkText t = [] \<Longrightarrow> onChunk t s = s"
  by (cases t) (simp_all add: onChunk_def chunkText_def)

lemma onChunk_parsed:
  "headersParsed s \<Longrightarrow> chunkText t \<noteq> [] \<Longrightarrow> onChunk t s = invoke (OnExplanationChunk (chunkText t)) s"
  by (cases t) (simp_all add: onChunk_def chunkText_def)

lemma onChunk_buffering:
  "\<not> headersParsed s \<Longrightarrow> chunkText t \<noteq> [] \<Longrightarrow> indexOf (buffer s @ chunkText t) separator = None
   \<Longrightarrow> onChunk t s = s\<lparr>buffer := buffer s @ chunkText t\<rparr>"
  by (cases t) (simp_all add: onChunk_def chunkText_def)

lemma onChunk_found:
  "\<not> headersParsed s \<Longrightarrow> chunkText t \<noteq> [] \<Longrightarrow> indexOf (buffer s @ chunkText t) separator = Some i
   \<Longrightarrow> onChunk t s =
       s\<lparr>buffer := buffer s @ chunkText t, headersParsed := True,
         calls := calls s @ OnStructuredData (parseHeaders (take i (buffer s @ chunkText t))) #
                  map OnExplanationChunk (filter (\<lambda>e. e \<noteq> []) [drop (i + length separator) (buffer s @ chunkText t)])\<rparr>"
  by (cases t) (simp_all add: onChunk_def chunkText_def invoke_def Let_def)

lemma forAwait_parsed:
  "headersParsed s \<Longrightarrow>
   forAwait (map Chunk ts) s =
     (s\<lparr>calls := calls s @ map OnExplanationChunk (filter (\<lambda>e. e \<noteq> []) (map chunkText ts))\<rparr>, Inr ())"
proof (induction ts arbitrary: s)
  case Nil
  then show ?case by simp
next
  case (Cons t ts)
  show ?case
  proof (cases "chunkText t = []")
    case True
    with Cons show ?thesis by (simp add: onChunk_empty)
  next
    case False
    with Cons.prems have "onChunk t s = invoke (OnExplanationChunk (chunkText t)) s"
      by (rule onChunk_parsed)
    moreover have "headersParsed (invoke (OnExplanationChunk (chunkText t)) s)"
      using Cons.prems by (simp add: invoke_def)
    ultimately show ?thesis using Cons.IH False by (simp add: invoke_def)
  qed
qed

lemma forAwait_buffering:
  "\<not> headersParsed s \<Longrightarrow> indexOf (buffer s @ streamText ts) separator = None \<Longrightarrow>
   forAwait (map Chunk ts) s = (s\<lparr>buffer := buffer s @ streamText ts\<rparr>, Inr ())"
proof (induction ts arbitrary: s)
  case Nil
  then show ?case by (simp add: streamText_def)
next
  case (Cons t ts)
  show ?case
  proof (cases "chunkText t = []")
    case True
    with Cons show ?thesis by (simp add: onChunk_empty streamText_def)
  next
    case False
    from Cons.prems(2) have all: "indexOf ((buffer s @ chunkText t) @ streamText ts) separator = None"
      by (simp add: streamText_def)
    then have "indexOf (buffer s @ chunkText t) separator = None"
      by (rule indexOf_append_None)
    with Cons.prems(1) False have step: "onChunk t s = s\<lparr>buffer := buffer s @ chunkText t\<rparr>"
      by (rule onChunk_buffering)
    have "forAwait (map Chunk ts) (s\<lparr>buffer := buffer s @ chunkText t\<rparr>) =
            ((s\<lparr>buffer := buffer s @ chunkText t\<rparr>)\<lparr>buffer := buffer (s\<lparr>buffer := buffer s @ chunkText t\<rparr>) @ streamText ts\<rparr>, Inr ())"
      using Cons.prems(1) all by (intro Cons.IH) simp_all
    with step show ?thesis by (simp add: streamText_def)
  qed
qed

lemma forAwait_found:
  "\<not> headersParsed s \<Longrightarrow> indexOf (buffer s @ streamText ts) separator = Some i \<Longrightarrow>
   indexOf (buffer s) separator = None \<Longrightarrow>
   \<exists>b es. forAwait (map Chunk ts) s =
            (s\<lparr>buffer := b, headersParsed := True,
               calls := calls s @ OnStructuredData (parseHeaders (take i (buffer s @ streamText ts))) #
                        map OnExplanationChunk es\<rparr>, Inr ())
          \<and> concat es = drop (i + length separator) (buffer s @ streamText ts)"
proof (induction ts arbitrary: s)
  case Nil
  then show ?case by (simp add: streamText_def)
next
  case (Cons t ts)
  let ?buf = "buffer s @ chunkText t"
  have whole: "buffer s @ streamText (t # ts) = ?buf @ streamText ts"
    by (simp add: streamText_def)
  show ?case
  proof (cases "chunkText t = []")
    case True
    with Cons.prems have "\<exists>b es. forAwait (map Chunk ts) s =
            (s\<lparr>buffer := b, headersParsed := True,
               calls := calls s @ OnStructuredData (parseHeaders (take i (buffer s @ streamText ts))) #
                        map OnExplanationChunk es\<rparr>, Inr ())
          \<and> concat es = drop (i + length separator) (buffer s @ streamText ts)"
      by (intro Cons.IH) (simp_all add: streamText_def)
    with True show ?thesis by (simp add: onChunk_empty streamText_def)
  next
    case False
    show ?thesis
    proof (cases "indexOf ?buf separator")
      case None
      with Cons.prems(1) False have step: "onChunk t s = s\<lparr>buffer := ?buf\<rparr>"
        by (rule onChunk_buffering)
      let ?s = "s\<lparr>buffer := ?buf\<rparr>"
      have "\<exists>b es. forAwait (map Chunk ts) ?s =
            (?s\<lparr>buffer := b, headersParsed := True,
               calls := calls ?s @ OnStructuredData (parseHeaders (take i (buffer ?s @ streamText ts))) #
                        map OnExplanationChunk es\<rparr>, Inr ())
          \<and> concat es = drop (i + length separator) (buffer ?s @ streamText ts)"
        using Cons.prems None whole by (intro Cons.IH) simp_all
      with step whole show ?thesis by simp
    next
      case (Some j)
      from indexOf_append [OF Some, of "streamText ts"] Cons.prems(2) whole have ij: "j = i" by simp
      from indexOf_bound [OF Some] ij have len: "i + length separator \<le> length ?buf" by simp
      from Cons.prems(1) False Some ij have step: "onChunk t s =
         s\<lparr>buffer := ?buf, headersParsed := True,
           calls := calls s @ OnStructuredData (parseHeaders (take i ?buf)) #
                  map OnExplanationChunk (filter (\<lambda>e. e \<noteq> []) [drop (i + length separator) ?buf])\<rparr>"
        by (simp add: onChunk_found)
      let ?s = "s\<lparr>buffer := ?buf, headersParsed := True,
           calls := calls s @ OnStructuredData (parseHeaders (take i ?buf)) #
                  map OnExplanationChunk (filter (\<lambda>e. e \<noteq> []) [drop (i + length separator) ?buf])\<rparr>"
      let ?es = "filter (\<lambda>e. e \<noteq> []) [drop (i + length separator) ?buf] @ filter (\<lambda>e. e \<noteq> []) (map chunkText ts)"
      have rest: "forAwait (map Chunk ts) ?s =
          (?s\<lparr>calls := calls ?s @ map OnExplanationChunk (filter (\<lambda>e. e \<noteq> []) (map chunkText ts))\<rparr>, Inr ())"
        by (rule forAwait_parsed) simp
      have tk: "take i (buffer s @ streamText (t # ts)) = take i ?buf"
        using len whole by simp
      have cc: "concat (filter (\<lambda>e. e \<noteq> []) xs) = concat xs" for xs :: "jsstring list"
        by (induction xs) auto
      have dr: "concat ?es = drop (i + length separator) (buffer s @ streamText (t # ts))"
        using len whole by (simp add: cc streamText_def del: filter.simps)
      have "forAwait (map Chunk (t # ts)) s =
            (s\<lparr>buffer := ?buf, headersParsed := True,
               calls := calls s @ OnStructuredData (parseHeaders (take i (buffer s @ streamText (t # ts)))) #
                        map OnExplanationChunk ?es\<rparr>, Inr ())"
        using step rest tk by simp
      with dr show ?thesis by blast
    qed
  qed
qed

section \<open>Runs over a stream that does not throw\<close>

text \<open>A stream of chunks ends in one of three ways, by its text alone: nothing came, the
  separator came, or text came without the separator.\<close>

lemma separator_nonempty [simp]: "separator \<noteq> []"
  by (simp add: separator_def)

lemma structuredOf_explanations [simp]: "structuredOf (map OnExplanationChunk es @ cs) = structuredOf cs"
  by (induction es) simp_all

lemma explanationText_explanations [simp]:
  "explanationText (map OnExplanationChunk es @ cs) = concat es @ explanationText cs"
  by (induction es) simp_all

lemma run_empty:
  assumes "streamText ts = []"
  shows "evaluateSentenceStream (map Chunk ts) = ([OnStreamEnd], Inr ())"
proof -
  have "forAwait (map Chunk ts) initial = (initial\<lparr>buffer := buffer initial @ streamText ts\<rparr>, Inr ())"
    by (rule forAwait_buffering) (simp_all add: initial_def assms)
  then have "forAwait (map Chunk ts) initial = (initial, Inr ())"
    by (simp add: assms initial_def)
  then show ?thesis
    by (simp add: evaluateSentenceStream_def tryBlock_def fallback_def initial_def invoke_def)
qed

lemma run_delimited:
  assumes "indexOf (streamText ts) separator = Some i"
  shows "\<exists>es. evaluateSentenceStream (map Chunk ts) =
           (OnStructuredData (parseHeaders (take i (streamText ts))) #
              map OnExplanationChunk es @ [OnStreamEnd], Inr ())
         \<and> concat es = drop (i + length separator) (streamText ts)"
proof -
  have "\<exists>b es. forAwait (map Chunk ts) initial =
            (initial\<lparr>buffer := b, headersParsed := True,
               calls := calls initial @ OnStructuredData (parseHeaders (take i (buffer initial @ streamText ts))) #
                        map OnExplanationChunk es\<rparr>, Inr ())
          \<and> concat es = drop (i + length separator) (buffer initial @ streamText ts)"
    by (rule forAwait_found) (simp_all add: initial_def assms)
  then obtain b es where
    loop: "forAwait (map Chunk ts) initial =
             (\<lparr>buffer = b, headersParsed = True,
               calls = OnStructuredData (parseHeaders (take i (streamText ts))) # map OnExplanationChunk es\<rparr>, Inr ())"
    and es: "concat es = drop (i + length separator) (streamText ts)"
    by (auto simp: initial_def)
  from loop have "evaluateSentenceStream (map Chunk ts) =
           (OnStructuredData (parseHeaders (take i (streamText ts))) #
              map OnExplanationChunk es @ [OnStreamEnd], Inr ())"
    by (simp add: evaluateSentenceStream_def tryBlock_def fallback_def invoke_def)
  with es show ?thesis by blast
qed

lemma run_undelimited:
  assumes "streamText ts \<noteq> []" and "indexOf (streamText ts) separator = None"
  shows "evaluateSentenceStream (map Chunk ts) =
           (OnStructuredData (parseHeaders (streamText ts)) #
              map OnExplanationChunk (filter (\<lambda>e. e \<noteq> []) [guessExplanation (streamText ts)]) @
              [OnStreamEnd], Inr ())"
proof -
  have "forAwait (map Chunk ts) initial = (initial\<lparr>buffer := buffer initial @ streamText ts\<rparr>, Inr ())"
    by (rule forAwait_buffering) (simp_all add: initial_def assms)
  then have "forAwait (map Chunk ts) initial =
               (\<lparr>buffer = streamText ts, headersParsed = False, calls = []\<rparr>, Inr ())"
    by (simp add: initial_def)
  with assms show ?thesis
    by (simp add: evaluateSentenceStream_def tryBlock_def fallback_def invoke_def Let_def)
qed

text \<open>Until the headers are parsed, the buffer has never held the separator.\<close>

lemma onChunk_invariant:
  "headersParsed s \<or> indexOf (buffer s) separator = None \<Longrightarrow>
   headersParsed (onChunk t s) \<or> indexOf (buffer (onChunk t s)) separator = None"
  by (cases t) (auto simp: onChunk_def invoke_def Let_def split: option.splits)

lemma forAwait_invariant:
  "headersParsed s \<or> indexOf (buffer s) separator = None \<Longrightarrow>
   headersParsed (fst (forAwait stream s)) \<or> indexOf (buffer (fst (forAwait stream s))) separator = None"
proof (induction stream s rule: forAwait.induct)
  case (1 s)
  then show ?case by simp
next
  case (2 rest s)
  then show ?case by simp
next
  case (3 t rest s)
  from onChunk_invariant [OF "3.prems"] "3.IH" show ?case by simp
qed

text \<open>The loop throws exactly when the stream does, and nothing before the \<open>finally\<close>
  block calls \<open>onStreamEnd\<close>.\<close>

lemma forAwait_result:
  "snd (forAwait stream s) = (if Throws \<in> set stream then Inl StreamError else Inr ())"
  by (induction stream s rule: forAwait.induct) simp_all

lemma onChunk_no_end:
  "OnStreamEnd \<notin> set (calls s) \<Longrightarrow> OnStreamEnd \<notin> set (calls (onChunk t s))"
  by (cases t) (auto simp: onChunk_def invoke_def Let_def split: option.splits)

lemma forAwait_no_end:
  "OnStreamEnd \<notin> set (calls s) \<Longrightarrow> OnStreamEnd \<notin> set (calls (fst (forAwait stream s)))"
proof (induction stream s rule: forAwait.induct)
  case (3 t rest s)
  from onChunk_no_end [OF "3.prems"] "3.IH" show ?case by simp
qed simp_all

lemma fallback_no_end:
  "OnStreamEnd \<notin> set (calls s) \<Longrightarrow> OnStreamEnd \<notin> set (calls (fallback s))"
  by (auto simp: fallback_def invoke_def Let_def)

lemma tryBlock_no_end: "OnStreamEnd \<notin> set (calls (fst (tryBlock stream)))"
proof -
  have "OnStreamEnd \<notin> set (calls (fst (forAwait stream initial)))"
    by (rule forAwait_no_end) (simp add: initial_def)
  then show ?thesis
    by (cases "forAwait stream initial")
       (auto simp: tryBlock_def fallback_no_end split: sum.splits)
qed

lemma tryBlock_result:
  "snd (tryBlock stream) = (if Throws \<in> set stream then Inl StreamError else Inr ())"
  using forAwait_result [of stream initial]
  by (cases "forAwait stream initial") (auto simp: tryBlock_def split: sum.splits)

text \<open>The definitions a concrete run is computed with.\<close>

lemmas position_defs =
  fieldsByPosition_def firstLineStart_def isLineStart_def scoreDigits_def fieldText_def


lemmas model_defs =
  str_def LF_def isLineTerminator_def isWhiteSpace_def isDigit_def trim_def parseInt_def
  decimal_def
  scoreRegex_def lineRegex_def parseHeaders_def defaultEvaluation_def defaultCorrection_def
  separator_def errorMessage_def onChunk_def invoke_def guessExplanation_def fallback_def
  initial_def tryBlock_def evaluateSentenceStream_def chunkText_def streamText_def Let_def



section \<open>The deduplication key\<close>

text \<open>The decimal rendering is injective and has no hyphen inside, so for items that pass
  the validation the key string is the same exactly when timestamp and main sentence
  are.\<close>

lemma digits_nonempty: "digits n \<noteq> []"
  by (subst digits.simps) simp

lemma digits_inj: "digits m = digits n \<Longrightarrow> m = n"
proof (induction m arbitrary: n rule: digits.induct)
  case (1 m)
  show ?case
  proof (cases "m < 10")
    case True
    then have dm: "digits m = [0x30 + m]" by (subst digits.simps) simp
    show ?thesis
    proof (cases "n < 10")
      case True
      then have "digits n = [0x30 + n]" by (subst digits.simps) simp
      with dm "1.prems" show ?thesis by simp
    next
      case False
      then have "digits n = digits (n div 10) @ [0x30 + n mod 10]" by (subst digits.simps) simp
      with dm "1.prems" digits_nonempty [of "n div 10"] show ?thesis by simp
    qed
  next
    case False
    then have dm: "digits m = digits (m div 10) @ [0x30 + m mod 10]" by (subst digits.simps) simp
    show ?thesis
    proof (cases "n < 10")
      case True
      then have "digits n = [0x30 + n]" by (subst digits.simps) simp
      with dm "1.prems" digits_nonempty [of "m div 10"] show ?thesis by simp
    next
      case nbig: False
      then have "digits n = digits (n div 10) @ [0x30 + n mod 10]" by (subst digits.simps) simp
      with dm "1.prems" have "digits (m div 10) = digits (n div 10)" and md: "m mod 10 = n mod 10"
        by simp_all
      with "1.IH" [OF False] have "m div 10 = n div 10" by blast
      with md show ?thesis by (metis div_mult_mod_eq)
    qed
  qed
qed

lemma digits_are_digits: "c \<in> set (digits n) \<Longrightarrow> 0x30 \<le> c \<and> c \<le> 0x39"
proof (induction n rule: digits.induct)
  case (1 n)
  show ?case
  proof (cases "n < 10")
    case True
    then have "digits n = [0x30 + n]" by (subst digits.simps) simp
    with "1.prems" True show ?thesis by simp
  next
    case False
    then have "digits n = digits (n div 10) @ [0x30 + n mod 10]" by (subst digits.simps) simp
    with "1.prems" have "c \<in> set (digits (n div 10)) \<or> c = 0x30 + n mod 10" by auto
    then show ?thesis
    proof
      assume "c \<in> set (digits (n div 10))"
      with "1.IH" [OF False] show ?thesis .
    next
      assume "c = 0x30 + n mod 10"
      moreover have "n mod 10 < 10" by simp
      ultimately show ?thesis by linarith
    qed
  qed
qed

lemma hyphen_not_digit: "0x2D \<notin> set (digits n)"
  using digits_are_digits [of "0x2D" n] by auto

lemma takeWhile_until: "c \<notin> set xs \<Longrightarrow> takeWhile (\<lambda>x. x \<noteq> c) (xs @ c # ys) = xs"
  by (induction xs) auto

lemma split_at_first:
  assumes "c \<notin> set xs" and "c \<notin> set xs'" and "xs @ c # ys = xs' @ c # ys'"
  shows "xs = xs' \<and> ys = ys'"
proof -
  from assms(1) have "takeWhile (\<lambda>x. x \<noteq> c) (xs @ c # ys) = xs"
    by (rule takeWhile_until)
  moreover from assms(2) have "takeWhile (\<lambda>x. x \<noteq> c) (xs' @ c # ys') = xs'"
    by (rule takeWhile_until)
  ultimately have "xs = xs'" using assms(3) by simp
  with assms(3) show ?thesis by simp
qed

lemma numberToString_key_inj:
  assumes "numberToString a @ 0x2D # s = numberToString b @ 0x2D # t"
  shows "a = b \<and> s = t"
proof -
  have hd_digit: "hd (digits n) \<noteq> 0x2D" for n
    using hyphen_not_digit [of n] digits_nonempty [of n] by (cases "digits n") auto
  consider "a < 0" "b < 0" | "a < 0" "\<not> b < 0" | "\<not> a < 0" "b < 0" | "\<not> a < 0" "\<not> b < 0"
    by blast
  then show ?thesis
  proof cases
    case 1
    with assms have "digits (nat (- a)) @ 0x2D # s = digits (nat (- b)) @ 0x2D # t"
      by (simp add: numberToString_def)
    with split_at_first [OF hyphen_not_digit hyphen_not_digit]
    have "digits (nat (- a)) = digits (nat (- b))" and "s = t" by blast+
    with 1 digits_inj show ?thesis by fastforce
  next
    case 2
    with assms have "0x2D # digits (nat (- a)) @ 0x2D # s = digits (nat b) @ 0x2D # t"
      by (simp add: numberToString_def)
    with hd_digit [of "nat b"] digits_nonempty [of "nat b"] show ?thesis
      by (cases "digits (nat b)") auto
  next
    case 3
    with assms have "digits (nat a) @ 0x2D # s = 0x2D # digits (nat (- b)) @ 0x2D # t"
      by (simp add: numberToString_def)
    with hd_digit [of "nat a"] digits_nonempty [of "nat a"] show ?thesis
      by (cases "digits (nat a)") auto
  next
    case 4
    with assms have "digits (nat a) @ 0x2D # s = digits (nat b) @ 0x2D # t"
      by (simp add: numberToString_def)
    with split_at_first [OF hyphen_not_digit hyphen_not_digit]
    have "digits (nat a) = digits (nat b)" and "s = t" by blast+
    with 4 digits_inj show ?thesis by fastforce
  qed
qed

lemma key_is_timestamp_and_sentence:
  assumes "valid sc a" and "valid sc b"
  shows "key sc a = key sc b \<longleftrightarrow>
         timestamp a = timestamp b \<and> mainSentence sc a = mainSentence sc b"
proof
  assume "timestamp a = timestamp b \<and> mainSentence sc a = mainSentence sc b"
  then show "key sc a = key sc b" by (simp add: key_def)
next
  assume k: "key sc a = key sc b"
  from assms obtain n s where a: "timestamp a = JNum n" "mainSentence sc a = JStr s"
    by (cases "timestamp a"; cases "mainSentence sc a") (auto simp: valid_def)
  from assms obtain m t where b: "timestamp b = JNum m" "mainSentence sc b = JStr t"
    by (cases "timestamp b"; cases "mainSentence sc b") (auto simp: valid_def)
  from k a b have "numberToString n @ 0x2D # s = numberToString m @ 0x2D # t"
    by (simp add: key_def)
  from numberToString_key_inj [OF this] a b
  show "timestamp a = timestamp b \<and> mainSentence sc a = mainSentence sc b" by simp
qed

section \<open>The store and its cap\<close>

text \<open>
  \<open>getHistory\<close> returns a value in every state; what an operation has written is read
  back; and every operation leaves either the store as it was or an array it has cut or
  not made longer.
\<close>

lemma getHistory_written [simp]: "getHistory (Holds (Some (Json v))) = Inr v"
  by (simp add: getHistory_def getHistoryTry_def andThen_def truthy_def)

lemma getHistory_nothing [simp]: "getHistory (Holds None) = Inr (ArrayValue [])"
  by (simp add: getHistory_def getHistoryTry_def andThen_def)

lemma getHistory_unavailable [simp]: "getHistory Unavailable = Inr (ArrayValue [])"
  by (simp add: getHistory_def getHistoryTry_def andThen_def)

lemma getHistory_returns: "\<exists>v. getHistory st = Inr v"
  by (simp add: getHistory_def split: sum.splits option.splits)

lemma setItem_written: "setItem refuses t st = Inr st' \<Longrightarrow> st' = Holds (Some t)"
  by (cases st) (auto split: if_splits)

lemma setItem_holds:
  "setItem refuses t (Holds h) = (if refuses t then Inl QuotaExceededError else Inr (Holds (Some t)))"
  by simp

lemma andThen_Inr: "andThen r f = Inr y \<Longrightarrow> \<exists>x. r = Inr x \<and> f x = Inr y"
  by (cases r) (simp_all add: andThen_def)

lemma andThen_Inr_simp [simp]: "andThen (Inr x) f = f x"
  by (simp add: andThen_def)

lemma andThen_Inl_simp [simp]: "andThen (Inl e) f = Inl e"
  by (simp add: andThen_def)

lemma arrayMap_length: "arrayMap f xs = Inr ys \<Longrightarrow> length ys = length xs"
  by (induction xs arbitrary: ys) (auto split: sum.splits)

lemma arrayFilter_length: "arrayFilter f xs = Inr ys \<Longrightarrow> length ys \<le> length xs"
  by (induction xs arbitrary: ys) (auto split: sum.splits if_splits)

lemma asArray_Inr: "asArray v = Inr items \<Longrightarrow> v = ArrayValue items"
  by (cases v) simp_all

lemma add_writes:
  assumes "getHistory st = Inr (ArrayValue items)"
  shows "addHistoryItemTry refuses newItem st =
           setItem refuses (Json (ArrayValue (ObjectValue newItem # take 99 items))) st"
  using assms by (simp add: addHistoryItemTry_def JSON_stringify_def take_Cons')

lemma update_writes:
  assumes "getHistory st = Inr (ArrayValue items)"
    and "updateHistoryItemTry refuses updatedItem st = Inr st'"
  shows "\<exists>newHistory. st' = Holds (Some (Json (ArrayValue newHistory)))
           \<and> length newHistory = length items"
proof -
  from assms obtain newHistory where
    m: "arrayMap (\<lambda>item. andThen (property id' item) (\<lambda>i.
          Inr (if strictEquals i (id' updatedItem) then ObjectValue updatedItem else item)))
          items = Inr newHistory"
    and w: "setItem refuses (JSON_stringify (ArrayValue newHistory)) st = Inr st'"
    by (auto simp: updateHistoryItemTry_def dest!: andThen_Inr)
  from m have "length newHistory = length items" by (rule arrayMap_length)
  with setItem_written [OF w] show ?thesis by (simp add: JSON_stringify_def)
qed

lemma delete_writes:
  assumes "getHistory st = Inr (ArrayValue items)"
    and "deleteHistoryItemTry refuses i st = Inr st'"
  shows "\<exists>newHistory. st' = Holds (Some (Json (ArrayValue newHistory)))
           \<and> length newHistory \<le> length items"
proof -
  from assms obtain newHistory where
    m: "arrayFilter (\<lambda>item. andThen (property id' item) (\<lambda>j.
          Inr (\<not> strictEquals j (JStr i)))) items = Inr newHistory"
    and w: "setItem refuses (JSON_stringify (ArrayValue newHistory)) st = Inr st'"
    by (auto simp: deleteHistoryItemTry_def dest!: andThen_Inr)
  from m have "length newHistory \<le> length items" by (rule arrayFilter_length)
  with setItem_written [OF w] show ?thesis by (simp add: JSON_stringify_def)
qed

lemma deleteMultiple_writes:
  assumes "getHistory st = Inr (ArrayValue items)"
    and "deleteMultipleHistoryItemsTry refuses ids st = Inr st'"
  shows "\<exists>newHistory. st' = Holds (Some (Json (ArrayValue newHistory)))
           \<and> length newHistory \<le> length items"
proof -
  from assms obtain newHistory where
    m: "arrayFilter (\<lambda>item. andThen (property id' item) (\<lambda>j.
          Inr (j \<notin> set (map JStr ids)))) items = Inr newHistory"
    and w: "setItem refuses (JSON_stringify (ArrayValue newHistory)) st = Inr st'"
    by (auto simp: deleteMultipleHistoryItemsTry_def Let_def dest!: andThen_Inr)
  from m have "length newHistory \<le> length items" by (rule arrayFilter_length)
  with setItem_written [OF w] show ?thesis by (simp add: JSON_stringify_def)
qed

lemma merge_writes:
  assumes "getHistory st = Inr (ArrayValue items)"
  shows "snd (mergeAndSaveHistory sc refuses importedHistory st) = st
         \<or> (\<exists>newHistory. snd (mergeAndSaveHistory sc refuses importedHistory st) =
               Holds (Some (Json (ArrayValue newHistory))) \<and> length newHistory \<le> 200)"
proof (cases "mergeTry sc refuses importedHistory st")
  case (Inl e)
  then show ?thesis by (simp add: mergeAndSaveHistory_def)
next
  case (Inr r)
  obtain history st' where r: "r = (history, st')" by (cases r)
  show ?thesis
  proof (cases "isArray importedHistory")
    case False
    with Inr r assms have "st' = st" by (auto simp: mergeTry_def)
    with Inr r show ?thesis by (simp add: mergeAndSaveHistory_def)
  next
    case True
    with Inr r assms have "\<exists>newHistory. st' = Holds (Some (Json (ArrayValue newHistory)))
        \<and> length newHistory \<le> 200"
      by (auto simp: mergeTry_def Let_def JSON_stringify_def dest!: andThen_Inr setItem_written)
    with Inr r show ?thesis by (simp add: mergeAndSaveHistory_def)
  qed
qed

lemma perform_capped:
  assumes "getHistory st = Inr (ArrayValue items)" and "length items \<le> 200"
  shows "\<exists>items'. getHistory (perform sc refuses operation st) = Inr (ArrayValue items')
           \<and> length items' \<le> 200"
proof (cases operation)
  case GetHistory
  with assms show ?thesis by simp
next
  case (AddHistoryItem newItem)
  show ?thesis
  proof (cases "addHistoryItemTry refuses newItem st")
    case (Inl e)
    with AddHistoryItem assms show ?thesis by (simp add: addHistoryItem_def)
  next
    case (Inr st')
    with add_writes [OF assms(1), of refuses newItem]
    have "setItem refuses (Json (ArrayValue (ObjectValue newItem # take 99 items))) st = Inr st'"
      by simp
    then have "st' = Holds (Some (Json (ArrayValue (ObjectValue newItem # take 99 items))))"
      by (rule setItem_written)
    with AddHistoryItem Inr show ?thesis by (simp add: addHistoryItem_def)
  qed
next
  case (UpdateHistoryItem updatedItem)
  show ?thesis
  proof (cases "updateHistoryItemTry refuses updatedItem st")
    case (Inl e)
    with UpdateHistoryItem assms show ?thesis by (simp add: updateHistoryItem_def)
  next
    case (Inr st')
    from update_writes [OF assms(1) Inr] assms(2) UpdateHistoryItem Inr show ?thesis
      by (auto simp: updateHistoryItem_def)
  qed
next
  case (DeleteHistoryItem i)
  show ?thesis
  proof (cases "deleteHistoryItemTry refuses i st")
    case (Inl e)
    with DeleteHistoryItem assms show ?thesis by (simp add: deleteHistoryItem_def)
  next
    case (Inr st')
    from delete_writes [OF assms(1) Inr] assms(2) DeleteHistoryItem Inr show ?thesis
      by (auto simp: deleteHistoryItem_def)
  qed
next
  case (DeleteMultipleHistoryItems ids)
  show ?thesis
  proof (cases "deleteMultipleHistoryItemsTry refuses ids st")
    case (Inl e)
    with DeleteMultipleHistoryItems assms show ?thesis
      by (simp add: deleteMultipleHistoryItems_def)
  next
    case (Inr st')
    from deleteMultiple_writes [OF assms(1) Inr] assms(2) DeleteMultipleHistoryItems Inr
    show ?thesis by (auto simp: deleteMultipleHistoryItems_def)
  qed
next
  case (MergeAndSaveHistory importedHistory)
  from merge_writes [OF assms(1), of sc refuses importedHistory] assms MergeAndSaveHistory
  show ?thesis by auto
qed

lemma performAll_capped:
  "getHistory st = Inr (ArrayValue items) \<Longrightarrow> length items \<le> 200 \<Longrightarrow>
   \<exists>items'. getHistory (performAll sc steps st) = Inr (ArrayValue items')
     \<and> length items' \<le> 200"
proof (induction steps arbitrary: st items)
  case Nil
  then show ?case by simp
next
  case (Cons c steps)
  obtain refuses operation where c: "c = (refuses, operation)" by (cases c)
  from perform_capped [OF Cons.prems, of sc refuses operation] obtain items' where
    "getHistory (perform sc refuses operation st) = Inr (ArrayValue items')"
    "length items' \<le> 200"
    by blast
  then show ?case using Cons.IH c by simp
qed

text \<open>A storage that can be reached stays so: the operations write or leave the store.\<close>

lemma add_holds: "addHistoryItemTry refuses newItem st = Inr st' \<Longrightarrow> \<exists>t. st' = Holds (Some t)"
  by (auto simp: addHistoryItemTry_def Let_def dest!: andThen_Inr setItem_written)

lemma update_holds:
  "updateHistoryItemTry refuses updatedItem st = Inr st' \<Longrightarrow> \<exists>t. st' = Holds (Some t)"
  by (auto simp: updateHistoryItemTry_def dest!: andThen_Inr setItem_written)

lemma delete_holds: "deleteHistoryItemTry refuses i st = Inr st' \<Longrightarrow> \<exists>t. st' = Holds (Some t)"
  by (auto simp: deleteHistoryItemTry_def dest!: andThen_Inr setItem_written)

lemma deleteMultiple_holds:
  "deleteMultipleHistoryItemsTry refuses ids st = Inr st' \<Longrightarrow> \<exists>t. st' = Holds (Some t)"
  by (auto simp: deleteMultipleHistoryItemsTry_def Let_def dest!: andThen_Inr setItem_written)

lemma merge_holds:
  "mergeTry sc refuses importedHistory st = Inr (history, st') \<Longrightarrow>
   st' = st \<or> (\<exists>t. st' = Holds (Some t))"
  by (auto simp: mergeTry_def Let_def split: if_splits dest!: andThen_Inr setItem_written)

lemma perform_holds: "\<exists>h'. perform sc refuses operation (Holds h) = Holds h'"
proof (cases operation)
  case GetHistory
  then show ?thesis by simp
next
  case (AddHistoryItem newItem)
  then show ?thesis
    by (auto simp: addHistoryItem_def split: sum.splits dest: add_holds)
next
  case (UpdateHistoryItem updatedItem)
  then show ?thesis
    by (auto simp: updateHistoryItem_def split: sum.splits dest: update_holds)
next
  case (DeleteHistoryItem i)
  then show ?thesis
    by (auto simp: deleteHistoryItem_def split: sum.splits dest: delete_holds)
next
  case (DeleteMultipleHistoryItems ids)
  then show ?thesis
    by (auto simp: deleteMultipleHistoryItems_def split: sum.splits dest: deleteMultiple_holds)
next
  case (MergeAndSaveHistory importedHistory)
  then show ?thesis
    by (auto simp: mergeAndSaveHistory_def split: sum.splits dest: merge_holds)
qed

lemma performAll_holds: "\<exists>h'. performAll sc steps (Holds h) = Holds h'"
proof (induction steps arbitrary: h)
  case Nil
  then show ?case by simp
next
  case (Cons c steps)
  obtain refuses operation where c: "c = (refuses, operation)" by (cases c)
  from perform_holds [of sc refuses operation h] obtain h' where
    "perform sc refuses operation (Holds h) = Holds h'" by blast
  with Cons.IH [of h'] c show ?case by simp
qed

section \<open>The merge loop\<close>

text \<open>
  Over objects the loop does not throw. What it adds to the map are items under their own
  keys, each the first valid item of its key in the combined history; the keys stay
  distinct, and every valid item finds its key in the map. A \<open>null\<close> entry makes it
  throw, wherever it stands, and an entry that is neither \<open>null\<close> nor an object is
  passed over.
\<close>

lemma find_in_append:
  "List.find P (xs @ ys) = (case List.find P xs of None \<Rightarrow> List.find P ys | Some x \<Rightarrow> Some x)"
  by (induction xs) simp_all

lemma mergeLoop_objects:
  "\<exists>M. mergeLoop sc (map ObjectValue xs) m = Inr (m @ M)
     \<and> (\<forall>(k, v) \<in> set M. k = key sc v \<and> k \<notin> fst ` set m
           \<and> List.find (\<lambda>y. valid sc y \<and> key sc y = k) xs = Some v)
     \<and> (distinct (map fst m) \<longrightarrow> distinct (map fst (m @ M)))
     \<and> (\<forall>x \<in> set xs. valid sc x \<longrightarrow> key sc x \<in> fst ` set (m @ M))
     \<and> length M \<le> length xs"
proof (induction xs arbitrary: m)
  case Nil
  then show ?case by simp
next
  case (Cons x xs)
  show ?case
  proof (cases "valid sc x \<and> key sc x \<notin> fst ` set m")
    case False
    from Cons.IH [of m] obtain M where
      run: "mergeLoop sc (map ObjectValue xs) m = Inr (m @ M)"
      and first: "\<forall>(k, v) \<in> set M. k = key sc v \<and> k \<notin> fst ` set m
           \<and> List.find (\<lambda>y. valid sc y \<and> key sc y = k) xs = Some v"
      and dist: "distinct (map fst m) \<longrightarrow> distinct (map fst (m @ M))"
      and cover: "\<forall>x \<in> set xs. valid sc x \<longrightarrow> key sc x \<in> fst ` set (m @ M)"
      and len: "length M \<le> length xs"
      by blast
    from False run have 1: "mergeLoop sc (map ObjectValue (x # xs)) m = Inr (m @ M)" by auto
    have 2: "\<forall>(k, v) \<in> set M. k = key sc v \<and> k \<notin> fst ` set m
           \<and> List.find (\<lambda>y. valid sc y \<and> key sc y = k) (x # xs) = Some v"
    proof (clarify)
      fix k v assume kv: "(k, v) \<in> set M"
      with first have a: "k = key sc v" and b: "k \<notin> fst ` set m"
        and c: "List.find (\<lambda>y. valid sc y \<and> key sc y = k) xs = Some v"
        by auto
      from False b have "\<not> (valid sc x \<and> key sc x = k)" by auto
      with a b c show "k = key sc v \<and> k \<notin> fst ` set m
           \<and> List.find (\<lambda>y. valid sc y \<and> key sc y = k) (x # xs) = Some v"
        by auto
    qed
    from False cover have 3: "\<forall>y \<in> set (x # xs). valid sc y \<longrightarrow> key sc y \<in> fst ` set (m @ M)"
      by auto
    from 1 2 3 dist len show ?thesis by (intro exI [of _ M]) simp
  next
    case True
    let ?m = "m @ [(key sc x, x)]"
    from Cons.IH [of ?m] obtain M where
      run: "mergeLoop sc (map ObjectValue xs) ?m = Inr (?m @ M)"
      and first: "\<forall>(k, v) \<in> set M. k = key sc v \<and> k \<notin> fst ` set ?m
           \<and> List.find (\<lambda>y. valid sc y \<and> key sc y = k) xs = Some v"
      and dist: "distinct (map fst ?m) \<longrightarrow> distinct (map fst (?m @ M))"
      and cover: "\<forall>x \<in> set xs. valid sc x \<longrightarrow> key sc x \<in> fst ` set (?m @ M)"
      and len: "length M \<le> length xs"
      by blast
    let ?M = "(key sc x, x) # M"
    from True run have 1: "mergeLoop sc (map ObjectValue (x # xs)) m = Inr (m @ ?M)" by simp
    have 2: "\<forall>(k, v) \<in> set ?M. k = key sc v \<and> k \<notin> fst ` set m
           \<and> List.find (\<lambda>y. valid sc y \<and> key sc y = k) (x # xs) = Some v"
    proof (clarify)
      fix k v assume kv: "(k, v) \<in> set ?M"
      show "k = key sc v \<and> k \<notin> fst ` set m
           \<and> List.find (\<lambda>y. valid sc y \<and> key sc y = k) (x # xs) = Some v"
      proof (cases "(k, v) = (key sc x, x)")
        case True
        with \<open>valid sc x \<and> key sc x \<notin> fst ` set m\<close> show ?thesis by simp
      next
        case False
        with kv have "(k, v) \<in> set M" by auto
        with first have a: "k = key sc v" and b: "k \<notin> fst ` set ?m"
          and c: "List.find (\<lambda>y. valid sc y \<and> key sc y = k) xs = Some v"
          by auto
        from b have "key sc x \<noteq> k" by auto
        with a b c show ?thesis by auto
      qed
    qed
    from True dist have 3: "distinct (map fst m) \<longrightarrow> distinct (map fst (m @ ?M))" by simp
    from cover have 4: "\<forall>y \<in> set (x # xs). valid sc y \<longrightarrow> key sc y \<in> fst ` set (m @ ?M)"
      by auto
    from 1 2 3 4 len show ?thesis by (intro exI [of _ ?M]) simp
  qed
qed

lemma objects_append: "objects (xs @ ys) = objects xs @ objects ys"
  by (induction xs rule: objects.induct) simp_all

lemma objects_map [simp]: "objects (map ObjectValue xs) = xs"
  by (induction xs) simp_all

lemma mergeLoop_entries:
  "NullValue \<notin> set entries \<Longrightarrow>
   mergeLoop sc entries m = mergeLoop sc (map ObjectValue (objects entries)) m"
  by (induction sc entries m rule: mergeLoop.induct) auto

lemma mergeLoop_null:
  "NullValue \<in> set entries \<Longrightarrow> mergeLoop sc entries m = Inl TypeError"
  by (induction sc entries m rule: mergeLoop.induct) auto

lemma distinct_map_sort_key:
  "distinct (map g (sort_key f xs)) = distinct (map g xs)"
  by (simp add: distinct_map)

lemma sorted_desc:
  "sorted_wrt (\<lambda>a b. timestampOf b \<le> timestampOf a) (sortByTimestampDesc xs)"
proof -
  have "sorted (map (\<lambda>item. - timestampOf item) (sort_key (\<lambda>item. - timestampOf item) xs))"
    by (rule sorted_sort_key)
  then show ?thesis
    unfolding sortByTimestampDesc_def sorted_map by simp
qed



text \<open>
  The \<open>try\<close> block of the merge over arrays without \<open>null\<close>: it sorts the values of the
  map and writes the first 200. The map holds, for each key of a valid item, the first
  valid item with that key.
\<close>

lemma mergeTry_merged:
  assumes cur: "getHistory st = Inr (ArrayValue stored)"
    and nonull: "NullValue \<notin> set (stored @ imported)"
  shows "\<exists>merged.
      sorted_wrt (\<lambda>a b. timestampOf b \<le> timestampOf a) merged
    \<and> distinct (map (key sc) merged)
    \<and> (\<forall>x \<in> set merged.
          List.find (\<lambda>y. valid sc y \<and> key sc y = key sc x) (objects (stored @ imported)) = Some x)
    \<and> (\<forall>e \<in> set (objects (stored @ imported)). valid sc e \<longrightarrow> key sc e \<in> key sc ` set merged)
    \<and> mergeTry sc refuses (ArrayValue imported) st =
        andThen (setItem refuses (Json (ArrayValue (map ObjectValue (take 200 merged)))) st)
          (\<lambda>st'. Inr (ArrayValue (map ObjectValue (take 200 merged)), st'))"
proof -
  let ?xs = "objects (stored @ imported)"
  from mergeLoop_objects [of sc ?xs "[]"] obtain M where
    run: "mergeLoop sc (map ObjectValue ?xs) [] = Inr M"
    and first: "\<forall>(k, v) \<in> set M. k = key sc v
           \<and> List.find (\<lambda>y. valid sc y \<and> key sc y = k) ?xs = Some v"
    and dist: "distinct (map fst M)"
    and cover: "\<forall>x \<in> set ?xs. valid sc x \<longrightarrow> key sc x \<in> fst ` set M"
    by auto
  let ?merged = "sortByTimestampDesc (map snd M)"
  from first have keys: "map fst M = map (key sc) (map snd M)" by auto
  have set_merged: "set ?merged = snd ` set M" by (simp add: sortByTimestampDesc_def)
  have 1: "sorted_wrt (\<lambda>a b. timestampOf b \<le> timestampOf a) ?merged" by (rule sorted_desc)
  from dist keys have "distinct (map (key sc) (map snd M))" by simp
  then have 2: "distinct (map (key sc) ?merged)"
    unfolding sortByTimestampDesc_def by (simp only: distinct_map_sort_key)
  have 3: "\<forall>x \<in> set ?merged.
      List.find (\<lambda>y. valid sc y \<and> key sc y = key sc x) ?xs = Some x"
    using first unfolding set_merged by auto
  have "fst ` set M = key sc ` snd ` set M"
    using keys by (metis image_set list.set_map)
  with cover have 4: "\<forall>e \<in> set ?xs. valid sc e \<longrightarrow> key sc e \<in> key sc ` set ?merged"
    unfolding set_merged by simp
  from nonull have "mergeLoop sc (stored @ imported) [] = Inr M"
    using run by (simp only: mergeLoop_entries [OF nonull])
  with cur have 5: "mergeTry sc refuses (ArrayValue imported) st =
        andThen (setItem refuses (Json (ArrayValue (map ObjectValue (take 200 ?merged)))) st)
          (\<lambda>st'. Inr (ArrayValue (map ObjectValue (take 200 ?merged)), st'))"
    by (simp add: mergeTry_def JSON_stringify_def Let_def)
  from 1 2 3 4 5 show ?thesis by blast
qed

lemma mergeTry_null:
  assumes "getHistory st = Inr (ArrayValue stored)" and "NullValue \<in> set (stored @ imported)"
  shows "mergeTry sc refuses (ArrayValue imported) st = Inl TypeError"
  using assms mergeLoop_null [of "stored @ imported" sc "[]"]
  by (simp add: mergeTry_def)

text \<open>The key string and the pair of timestamp and main sentence tell valid items apart
  alike, so the first valid item of a key is the same for both.\<close>

lemma find_key_pair:
  assumes "valid sc x"
  shows "List.find (\<lambda>y. valid sc y \<and> key sc y = key sc x) xs =
         List.find (\<lambda>y. valid sc y \<and> keyPair sc y = keyPair sc x) xs"
proof (rule find_cong [OF refl])
  fix y
  from assms show "(valid sc y \<and> key sc y = key sc x) = (valid sc y \<and> keyPair sc y = keyPair sc x)"
    using key_is_timestamp_and_sentence [of sc y x] by (auto simp: keyPair_def)
qed

lemma find_valid: "List.find (\<lambda>y. valid sc y \<and> P y) xs = Some x \<Longrightarrow> valid sc x \<and> x \<in> set xs"
  by (auto simp: find_Some_iff)

lemma distinct_key_pair:
  assumes "\<forall>x \<in> set xs. valid sc x"
  shows "distinct (map (keyPair sc) xs) = distinct (map (key sc) xs)"
proof -
  have "inj_on (keyPair sc) (set xs) = inj_on (key sc) (set xs)"
    using assms key_is_timestamp_and_sentence [of sc]
    unfolding inj_on_def keyPair_def by (metis prod.inject)
  then show ?thesis by (simp add: distinct_map)
qed

lemma image_key_pair:
  assumes "valid sc e" and "\<forall>x \<in> set xs. valid sc x" and "key sc e \<in> key sc ` set xs"
  shows "keyPair sc e \<in> keyPair sc ` set xs"
proof -
  from assms(3) obtain x where x: "x \<in> set xs" "key sc e = key sc x" by auto
  with assms have "keyPair sc e = keyPair sc x"
    using key_is_timestamp_and_sentence [of sc e x] by (simp add: keyPair_def)
  with x show ?thesis by auto
qed

lemma first_is_stored:
  assumes "List.find P (xs @ ys) = Some x" and "e \<in> set xs" and "P e"
  shows "List.find P xs = Some x"
proof -
  from assms(2,3) have "List.find P xs \<noteq> None" by (auto simp: find_None_iff)
  with assms(1) show ?thesis by (auto simp: find_in_append split: option.splits)
qed


text \<open>
  A stored history that is valid, free of duplicate keys and sorted: merged into the empty
  store it is what the store then holds (up to the cap); and a merge that brings known
  keys and one newer item puts that item in front and cuts at 200. The storage has room
  for both writes.
\<close>

lemma mergeLoop_fresh:
  "\<forall>x\<in>set xs. valid sc x \<Longrightarrow> distinct (map (key sc) xs) \<Longrightarrow>
   set (map (key sc) xs) \<inter> fst ` set m = {} \<Longrightarrow>
   mergeLoop sc (map ObjectValue xs @ others) m =
     mergeLoop sc others (m @ map (\<lambda>x. (key sc x, x)) xs)"
proof (induction xs arbitrary: m)
  case Nil
  then show ?case by simp
next
  case (Cons x xs)
  from Cons.prems have fresh: "valid sc x" "key sc x \<notin> fst ` set m" by auto
  from Cons.prems have "set (map (key sc) xs) \<inter> fst ` set (m @ [(key sc x, x)]) = {}"
    by auto
  with Cons.prems have "mergeLoop sc (map ObjectValue xs @ others) (m @ [(key sc x, x)]) =
     mergeLoop sc others ((m @ [(key sc x, x)]) @ map (\<lambda>x. (key sc x, x)) xs)"
    by (intro Cons.IH) simp_all
  with fresh show ?case by simp
qed

lemma mergeLoop_skips_known:
  "\<forall>e\<in>set others. \<exists>x. e = ObjectValue x \<and> (valid sc x \<longrightarrow> key sc x \<in> fst ` set m) \<Longrightarrow>
   mergeLoop sc (others @ entries) m = mergeLoop sc entries m"
proof (induction others)
  case Nil
  then show ?case by simp
next
  case (Cons e others)
  then obtain x where "e = ObjectValue x" and "valid sc x \<longrightarrow> key sc x \<in> fst ` set m" by auto
  with Cons show ?case by auto
qed

lemma sort_key_snoc_least:
  "sorted (map f xs) \<Longrightarrow> \<forall>y\<in>set xs. f x < f y \<Longrightarrow> sort_key f (xs @ [x]) = x # xs"
proof (induction xs)
  case Nil
  then show ?case by simp
next
  case (Cons a as)
  then have "sort_key f (as @ [x]) = x # as" by simp
  moreover from Cons.prems have "\<not> f a \<le> f x" by (simp add: not_le)
  moreover from Cons.prems have "insort_key f a as = a # as"
    by (intro insort_is_Cons) simp
  ultimately show ?case by simp
qed

lemma merge_one_newer:
  assumes "\<forall>y\<in>set h. valid sc y" and "distinct (map (key sc) h)"
    and "sorted (map (\<lambda>item. - timestampOf item) h)"
    and "\<forall>e\<in>set others. \<exists>y. e = ObjectValue y \<and> (valid sc y \<longrightarrow> key sc y \<in> key sc ` set h)"
    and "valid sc x" and "key sc x \<notin> key sc ` set h"
    and "\<forall>y\<in>set h. timestampOf y < timestampOf x"
  shows "fst (mergeAndSaveHistory sc roomyStorage (ArrayValue (others @ [ObjectValue x]))
                (Holds (Some (Json (ArrayValue (map ObjectValue h)))))) =
           Inr (ArrayValue (map ObjectValue (take 200 (x # h))))"
proof -
  let ?M = "map (\<lambda>y. (key sc y, y)) h"
  have "mergeLoop sc (map ObjectValue h @ others @ [ObjectValue x]) [] =
          mergeLoop sc (others @ [ObjectValue x]) ([] @ ?M)"
    using assms(1,2) by (intro mergeLoop_fresh) simp_all
  moreover have "mergeLoop sc (others @ [ObjectValue x]) ?M = mergeLoop sc [ObjectValue x] ?M"
    using assms(4) by (intro mergeLoop_skips_known) (simp add: image_image)
  moreover have "mergeLoop sc [ObjectValue x] ?M = Inr (?M @ [(key sc x, x)])"
    using assms(5,6) by (simp add: image_image)
  ultimately have "mergeLoop sc (map ObjectValue h @ others @ [ObjectValue x]) [] =
      Inr (?M @ [(key sc x, x)])"
    by simp
  moreover have "map snd (?M @ [(key sc x, x)]) = h @ [x]" by (simp add: comp_def)
  moreover have "sortByTimestampDesc (h @ [x]) = x # h"
    unfolding sortByTimestampDesc_def using assms(3,7) by (intro sort_key_snoc_least) simp_all
  ultimately show ?thesis
    by (simp add: mergeAndSaveHistory_def mergeTry_def roomyStorage_def JSON_stringify_def Let_def
        del: take_Suc_Cons)
qed

lemma merge_into_empty_store:
  assumes "\<forall>y\<in>set h. valid sc y" and "distinct (map (key sc) h)"
    and "sorted (map (\<lambda>item. - timestampOf item) h)"
  shows "snd (mergeAndSaveHistory sc roomyStorage (ArrayValue (map ObjectValue h)) (Holds None)) =
           Holds (Some (Json (ArrayValue (map ObjectValue (take 200 h)))))"
proof -
  let ?M = "map (\<lambda>y. (key sc y, y)) h"
  have "mergeLoop sc (map ObjectValue h @ []) [] = mergeLoop sc [] ([] @ ?M)"
    using assms(1,2) by (intro mergeLoop_fresh) simp_all
  then have "mergeLoop sc (map ObjectValue h) [] = Inr ?M" by simp
  moreover have "map snd ?M = h" by (simp add: comp_def)
  moreover have "sortByTimestampDesc h = h"
    unfolding sortByTimestampDesc_def using assms(3) by (rule sort_key_id_if_sorted)
  ultimately show ?thesis
    by (simp add: mergeAndSaveHistory_def mergeTry_def JSON_stringify_def roomyStorage_def Let_def)
qed

lemma practiceItem_valid: "valid JUndefined (practiceItem n)"
  by (simp add: valid_def mainSentence_def practiceItem_def)

lemma practiceItem_key: "key JUndefined (practiceItem n) = digits n @ 0x2D # str ''s''"
  by (simp add: key_def mainSentence_def practiceItem_def numberToString_def)

lemma practiceItem_timestamp: "timestampOf (practiceItem n) = int n"
  by (simp add: timestampOf_def practiceItem_def)

lemma practiceItems_sorted:
  "sorted (map (\<lambda>item. - timestampOf item) (map practiceItem (rev [0..<n])))"
  by (induction n) (auto simp: practiceItem_timestamp)

lemma practiceItems_distinct:
  "distinct (map (key JUndefined) (map practiceItem (rev [0..<n])))"
proof -
  have "inj_on (\<lambda>k. digits k @ 0x2D # str ''s'') (set (rev [0..<n]))"
    by (rule inj_onI) (simp add: digits_inj)
  then have "distinct (map (\<lambda>k. digits k @ 0x2D # str ''s'') (rev [0..<n]))"
    by (simp add: distinct_map)
  then show ?thesis by (simp add: comp_def practiceItem_key)
qed

lemma practiceItem_key_inj:
  "key JUndefined (practiceItem a) = key JUndefined (practiceItem b) \<Longrightarrow> a = b"
  by (simp add: practiceItem_key digits_inj)

text \<open>The definitions a concrete history is computed with.\<close>

lemmas history_defs =
  truthy_def JSON_stringify_def getHistoryTry_def getHistory_def
  addHistoryItemTry_def addHistoryItem_def updateHistoryItemTry_def updateHistoryItem_def
  deleteHistoryItemTry_def deleteHistoryItem_def
  deleteMultipleHistoryItemsTry_def deleteMultipleHistoryItems_def
  mainSentence_def valid_def numberToString_def key_def keyPair_def sortByTimestampDesc_def
  mergeTry_def mergeAndSaveHistory_def timestampOf_def practiceItem_def digits.simps str_def
  Let_def andThen_def roomyStorage_def fullStorage_def

section \<open>The claims\<close>

text \<open>
  C1. When the text of the stream contains the separator, \<open>onStructuredData\<close> is called
  exactly once, with the fields extracted from the text before the first occurrence of the
  separator, and the strings passed to \<open>onExplanationChunk\<close> concatenate to exactly the
  text after that occurrence, later separators included. The second premise says that
  \<open>header\<close> ends where the first occurrence starts; by \<open>first_occurrence_exists\<close> every
  text that contains the separator splits this way. The fields are given by positions:
  the score from the first line start where \<open>score:\<close>, white space and digits stand, the
  other two from the first line start where their name stands.
\<close>

theorem delimited_stream_parsed_at_first_separator:
  assumes "streamText ts = header @ separator @ explanation"
    and "\<And>h e. streamText ts = h @ separator @ e \<Longrightarrow> length header \<le> length h"
  shows "structuredOf (fst (evaluateSentenceStream (map Chunk ts))) = [fieldsByPosition header]
       \<and> explanationText (fst (evaluateSentenceStream (map Chunk ts))) = explanation"
proof -
  from assms have i: "indexOf (streamText ts) separator = Some (length header)"
    by (rule indexOf_first_occurrence)
  from run_delimited [OF i] obtain es where
    "evaluateSentenceStream (map Chunk ts) =
       (OnStructuredData (parseHeaders (take (length header) (streamText ts))) #
          map OnExplanationChunk es @ [OnStreamEnd], Inr ())"
    and "concat es = drop (length header + length separator) (streamText ts)"
    by blast
  with assms(1) show ?thesis by (simp add: parseHeaders_by_position)
qed

theorem delimited_stream_parsed_at_first_separator_witness:
  "structuredOf (fst (evaluateSentenceStream (map Chunk
        [Some (str ''score: 85'' @ [LF] @ str ''evaluation: ok '' @ [LF] @ str ''corrected''),
         None,
         Some (str ''Sentence: neko'' @ [LF, 0x2D, 0x2D]),
         Some ([0x2D, 0x20, LF] @ str ''x'' @ separator), Some (str ''y'')]))) =
     [\<lparr>score = Exact 85, evaluation = str ''ok'', correctedSentence = str ''neko''\<rparr>]
   \<and> explanationText (fst (evaluateSentenceStream (map Chunk
        [Some (str ''score: 85'' @ [LF] @ str ''evaluation: ok '' @ [LF] @ str ''corrected''),
         None,
         Some (str ''Sentence: neko'' @ [LF, 0x2D, 0x2D]),
         Some ([0x2D, 0x20, LF] @ str ''x'' @ separator), Some (str ''y'')]))) =
       str ''x'' @ separator @ str ''y''"
proof -
  let ?ts = "[Some (str ''score: 85'' @ [LF] @ str ''evaluation: ok '' @ [LF] @ str ''corrected''),
         None,
         Some (str ''Sentence: neko'' @ [LF, 0x2D, 0x2D]),
         Some ([0x2D, 0x20, LF] @ str ''x'' @ separator), Some (str ''y'')]"
  let ?header = "str ''score: 85'' @ [LF] @ str ''evaluation: ok '' @ [LF] @
                 str ''correctedSentence: neko''"
  have tx: "streamText ?ts = ?header @ separator @ (str ''x'' @ separator @ str ''y'')"
    by (simp add: model_defs)
  have i: "indexOf (streamText ?ts) separator = Some (length ?header)"
    by (simp add: model_defs)
  have first: "length ?header \<le> length h"
    if "streamText ?ts = h @ separator @ e" for h e
    using indexOf_is_first [OF i that] .
  have hd: "fieldsByPosition ?header =
              \<lparr>score = Exact 85, evaluation = str ''ok'', correctedSentence = str ''neko''\<rparr>"
    by (simp add: model_defs position_defs upt_rec)
  from delimited_stream_parsed_at_first_separator [OF tx first] hd show ?thesis by simp
qed

text \<open>
  C2. Two streams of chunks with the same text give the same outcome: the same calls of
  \<open>onStructuredData\<close>, the same concatenated explanation, the same settlement of the
  promise. Where the chunk boundaries fall, the separator's included, does not matter.
\<close>

theorem chunk_boundaries_do_not_matter:
  assumes "streamText ts = streamText ts'"
  shows "structuredOf (fst (evaluateSentenceStream (map Chunk ts))) =
           structuredOf (fst (evaluateSentenceStream (map Chunk ts')))
       \<and> explanationText (fst (evaluateSentenceStream (map Chunk ts))) =
           explanationText (fst (evaluateSentenceStream (map Chunk ts')))
       \<and> snd (evaluateSentenceStream (map Chunk ts)) =
           snd (evaluateSentenceStream (map Chunk ts'))"
proof (cases "streamText ts = []")
  case True
  with assms have "streamText ts' = []" by simp
  with True show ?thesis by (simp add: run_empty)
next
  case False
  show ?thesis
  proof (cases "indexOf (streamText ts) separator")
    case None
    with assms have "indexOf (streamText ts') separator = None" by simp
    with False None assms show ?thesis by (simp add: run_undelimited)
  next
    case (Some i)
    with assms have Some': "indexOf (streamText ts') separator = Some i" by simp
    from run_delimited [OF Some] obtain es where
      a: "evaluateSentenceStream (map Chunk ts) =
         (OnStructuredData (parseHeaders (take i (streamText ts))) #
            map OnExplanationChunk es @ [OnStreamEnd], Inr ())"
      "concat es = drop (i + length separator) (streamText ts)"
      by blast
    from run_delimited [OF Some'] obtain es' where
      b: "evaluateSentenceStream (map Chunk ts') =
         (OnStructuredData (parseHeaders (take i (streamText ts'))) #
            map OnExplanationChunk es' @ [OnStreamEnd], Inr ())"
      "concat es' = drop (i + length separator) (streamText ts')"
      by blast
    from a b assms show ?thesis by simp
  qed
qed

theorem chunk_boundaries_do_not_matter_witness:
  "streamText [Some (str ''score: 7'' @ [LF, 0x2D]), Some [0x2D, 0x2D, 0x20], None, Some (LF # str ''xy'')] =
   streamText [Some (str ''score: 7'' @ separator @ str ''x''), Some (str ''y'')]
   \<and> structuredOf (fst (evaluateSentenceStream (map Chunk
        [Some (str ''score: 7'' @ [LF, 0x2D]), Some [0x2D, 0x2D, 0x20], None, Some (LF # str ''xy'')]))) =
     structuredOf (fst (evaluateSentenceStream (map Chunk
        [Some (str ''score: 7'' @ separator @ str ''x''), Some (str ''y'')])))
   \<and> explanationText (fst (evaluateSentenceStream (map Chunk
        [Some (str ''score: 7'' @ [LF, 0x2D]), Some [0x2D, 0x2D, 0x20], None, Some (LF # str ''xy'')]))) =
     explanationText (fst (evaluateSentenceStream (map Chunk
        [Some (str ''score: 7'' @ separator @ str ''x''), Some (str ''y'')])))"
proof -
  have h: "streamText [Some (str ''score: 7'' @ [LF, 0x2D]), Some [0x2D, 0x2D, 0x20], None, Some (LF # str ''xy'')] =
   streamText [Some (str ''score: 7'' @ separator @ str ''x''), Some (str ''y'')]"
    by (simp add: model_defs)
  from chunk_boundaries_do_not_matter [OF h] h show ?thesis by blast
qed

text \<open>
  C3, as amended. When the text of the stream is not empty and does not contain the
  separator, \<open>onStructuredData\<close> is called once with the fields of the whole text. Then
  \<open>onExplanationChunk\<close> is called once, with the trimmed join of the lines after the
  first line that starts with \<open>correctedSentence:\<close>, when that join is not empty; it is
  not called at all when there is no such line, when that line is the last one, or when
  the trimmed join is empty.
\<close>

theorem undelimited_stream_falls_back:
  assumes "streamText ts \<noteq> []" and "\<not> (\<exists>a b. streamText ts = a @ separator @ b)"
  shows "fst (evaluateSentenceStream (map Chunk ts)) =
           OnStructuredData (fieldsByPosition (streamText ts)) #
           (let lines = split (streamText ts) in
            case findIndex (prefix (str ''correctedSentence:'')) lines of
              None \<Rightarrow> []
            | Some k \<Rightarrow>
                if k + 1 < length lines \<and> trim (join (drop (k + 1) lines)) \<noteq> []
                then [OnExplanationChunk (trim (join (drop (k + 1) lines)))]
                else []) @
           [OnStreamEnd]"
proof -
  from assms(2) have "indexOf (streamText ts) separator = None"
    by (simp add: indexOf_None_iff)
  from run_undelimited [OF assms(1) this] show ?thesis
    by (simp add: guessExplanation_def parseHeaders_by_position Let_def split: option.splits)
qed

theorem undelimited_stream_falls_back_witness:
  "fst (evaluateSentenceStream (map Chunk
        [Some (str ''score: 7'' @ [LF] @ str ''evaluation: so-so'' @ [LF] @
               str ''correctedSentence: a''),
         Some (LF # str '' b '' @ [LF])])) =
       [OnStructuredData
          \<lparr>score = Exact 7, evaluation = str ''so-so'', correctedSentence = str ''a''\<rparr>,
        OnExplanationChunk (str ''b''), OnStreamEnd]"
proof -
  let ?ts = "[Some (str ''score: 7'' @ [LF] @ str ''evaluation: so-so'' @ [LF] @
                    str ''correctedSentence: a''),
              Some (LF # str '' b '' @ [LF])]"
  have h1: "streamText ?ts \<noteq> []" by (simp add: model_defs)
  have "indexOf (streamText ?ts) separator = None" by (simp add: model_defs)
  then have h2: "\<not> (\<exists>a b. streamText ?ts = a @ separator @ b)"
    by (rule iffD1 [OF indexOf_None_iff])
  have hd: "fieldsByPosition (streamText ?ts) =
          \<lparr>score = Exact 7, evaluation = str ''so-so'', correctedSentence = str ''a''\<rparr>"
    by (simp add: model_defs position_defs upt_rec)
  have ex: "(let lines = split (streamText ?ts) in
            case findIndex (prefix (str ''correctedSentence:'')) lines of
              None \<Rightarrow> []
            | Some k \<Rightarrow>
                if k + 1 < length lines \<and> trim (join (drop (k + 1) lines)) \<noteq> []
                then [OnExplanationChunk (trim (join (drop (k + 1) lines)))]
                else []) = [OnExplanationChunk (str ''b'')]"
    by (simp add: model_defs)
  from undelimited_stream_falls_back [OF h1 h2] show ?thesis
    unfolding hd ex by simp
qed

text \<open>
  The claim as it was stated has the call of \<open>onExplanationChunk\<close> left out in two cases
  only. Here the line of the corrected sentence is there and is not the last one, the
  lines after it are blank, and \<open>onExplanationChunk\<close> is not called.
\<close>

theorem blank_remainder_is_not_delivered:
  "findIndex (prefix (str ''correctedSentence:''))
     (split (str ''score: 5'' @ [LF] @ str ''correctedSentence: a'' @ [LF] @ str '' '')) = Some 1
   \<and> length (split (str ''score: 5'' @ [LF] @ str ''correctedSentence: a'' @ [LF] @ str '' '')) = 3
   \<and> fst (evaluateSentenceStream
        [Chunk (Some (str ''score: 5'' @ [LF] @ str ''correctedSentence: a'' @ [LF] @ str '' ''))]) =
      [OnStructuredData
         \<lparr>score = Exact 5, evaluation = defaultEvaluation, correctedSentence = str ''a''\<rparr>,
       OnStreamEnd]"
  by (simp add: model_defs)

text \<open>
  C4. The claim reads each field off one line: the trimmed remainder of the first line
  that begins with the field's name. The regular expressions do not: \<open>\s*\<close> also
  consumes line terminators, so a field whose line has nothing after the colon takes the
  content of the next line that is not blank. Here the model's answer leaves the evaluation
  empty, and the evaluation handed to \<open>onStructuredData\<close> is the whole line of the
  corrected sentence.
\<close>

theorem evaluation_regex_runs_into_next_line:
  "evaluateSentenceStream
     [Chunk (Some (str ''score: 70'' @ [LF] @ str ''evaluation:'' @ [LF] @
                   str ''correctedSentence: neko'' @ separator @ str ''ok''))] =
   ([OnStructuredData \<lparr>score = Exact 70, evaluation = str ''correctedSentence: neko'',
                        correctedSentence = str ''neko''\<rparr>,
     OnExplanationChunk (str ''ok''), OnStreamEnd], Inr ())
   \<and> spec_evaluation (str ''score: 70'' @ [LF] @ str ''evaluation:'' @ [LF] @
                        str ''correctedSentence: neko'') = []"
  by (simp add: model_defs spec_evaluation_def)

text \<open>
  C5. In a run whose stream does not throw and yields some non-empty text,
  \<open>onStructuredData\<close> is called exactly once, before every call of
  \<open>onExplanationChunk\<close>, and \<open>onStreamEnd\<close> comes last. When the text has the separator,
  the explanation chunks together are the text after its first occurrence: none of them
  carries header text.
\<close>

theorem structured_data_precedes_explanation:
  assumes "streamText ts \<noteq> []"
  shows "\<exists>d es. fst (evaluateSentenceStream (map Chunk ts)) =
                  OnStructuredData d # map OnExplanationChunk es @ [OnStreamEnd]
              \<and> (case indexOf (streamText ts) separator of
                    None \<Rightarrow> True
                  | Some i \<Rightarrow> concat es = drop (i + length separator) (streamText ts))"
proof (cases "indexOf (streamText ts) separator")
  case None
  with run_undelimited [OF assms] show ?thesis by fastforce
next
  case (Some i)
  from run_delimited [OF Some] Some show ?thesis by fastforce
qed

theorem structured_data_precedes_explanation_witness:
  "streamText [None, Some (str ''h'' @ separator), Some (str ''e'')] \<noteq> []
   \<and> (\<exists>d es. fst (evaluateSentenceStream
                    (map Chunk [None, Some (str ''h'' @ separator), Some (str ''e'')])) =
                OnStructuredData d # map OnExplanationChunk es @ [OnStreamEnd]
              \<and> concat es = str ''e'')"
proof -
  let ?ts = "[None, Some (str ''h'' @ separator), Some (str ''e'')]"
  have h: "streamText ?ts \<noteq> []" by (simp add: model_defs)
  have i: "indexOf (streamText ?ts) separator = Some 1" by (simp add: model_defs)
  have e: "drop (1 + length separator) (streamText ?ts) = str ''e''" by (simp add: model_defs)
  from structured_data_precedes_explanation [OF h] obtain d es where
    "fst (evaluateSentenceStream (map Chunk ?ts)) =
       OnStructuredData d # map OnExplanationChunk es @ [OnStreamEnd]"
    and "case indexOf (streamText ?ts) separator of
           None \<Rightarrow> True
         | Some i \<Rightarrow> concat es = drop (i + length separator) (streamText ?ts)"
    by blast
  with i e have "fst (evaluateSentenceStream (map Chunk ?ts)) =
       OnStructuredData d # map OnExplanationChunk es @ [OnStreamEnd] \<and> concat es = str ''e''"
    by simp
  with h show ?thesis by blast
qed

text \<open>
  C6. The returned promise always fulfils: an error thrown by the stream is caught. When
  the stream throws, the calls the \<open>try\<close> block made are followed by one call of
  \<open>onExplanationChunk\<close> with the fixed error message; on every path \<open>onStreamEnd\<close> is
  called exactly once, as the last call.
\<close>

theorem stream_errors_are_caught:
  "evaluateSentenceStream stream =
     (calls (fst (tryBlock stream)) @
      (if Throws \<in> set stream then [OnExplanationChunk errorMessage] else []) @
      [OnStreamEnd], Inr ())
   \<and> OnStreamEnd \<notin> set (calls (fst (tryBlock stream)))"
proof -
  obtain s r where sr: "tryBlock stream = (s, r)" by (cases "tryBlock stream")
  with tryBlock_result [of stream]
  have r: "r = (if Throws \<in> set stream then Inl StreamError else Inr ())" by simp
  from sr r have "evaluateSentenceStream stream =
     (calls s @ (if Throws \<in> set stream then [OnExplanationChunk errorMessage] else []) @
      [OnStreamEnd], Inr ())"
    by (simp add: evaluateSentenceStream_def invoke_def)
  with sr tryBlock_no_end [of stream] show ?thesis by simp
qed

theorem stream_errors_are_caught_witness:
  "evaluateSentenceStream [Chunk (Some (str ''score: 7'' @ separator @ str ''ab'')), Chunk (Some (str ''cd'')), Throws, Chunk (Some (str ''ef''))] =
     ([OnStructuredData \<lparr>score = Exact 7, evaluation = defaultEvaluation, correctedSentence = defaultCorrection\<rparr>,
       OnExplanationChunk (str ''ab''), OnExplanationChunk (str ''cd''),
       OnExplanationChunk errorMessage, OnStreamEnd], Inr ())"
proof -
  have "calls (fst (tryBlock [Chunk (Some (str ''score: 7'' @ separator @ str ''ab'')), Chunk (Some (str ''cd'')), Throws, Chunk (Some (str ''ef''))])) =
     [OnStructuredData \<lparr>score = Exact 7, evaluation = defaultEvaluation, correctedSentence = defaultCorrection\<rparr>,
       OnExplanationChunk (str ''ab''), OnExplanationChunk (str ''cd'')]"
    by (simp add: model_defs)
  with stream_errors_are_caught [of "[Chunk (Some (str ''score: 7'' @ separator @ str ''ab'')), Chunk (Some (str ''cd'')), Throws, Chunk (Some (str ''ef''))]"]
  show ?thesis by simp
qed

text \<open>
  C7, as amended. From the empty store, after any sequence of calls of the service,
  whichever writes the storage refuses, the stored history is an array of at most 200
  entries. A call of \<open>addHistoryItem\<close> then writes the new item followed by the first 99
  of the entries before, which are at most 100 entries: when the storage accepts the
  write, that is the stored history; when it refuses, the store is as it was before the
  call.
\<close>

theorem history_stays_capped:
  "\<exists>items.
     getHistory (performAll sc steps (Holds None)) = Inr (ArrayValue items)
   \<and> length items \<le> 200
   \<and> length (ObjectValue newItem # take 99 items) \<le> 100
   \<and> addHistoryItem refuses newItem (performAll sc steps (Holds None)) =
       (if refuses (JSON_stringify (ArrayValue (ObjectValue newItem # take 99 items)))
        then performAll sc steps (Holds None)
        else Holds (Some (JSON_stringify (ArrayValue (ObjectValue newItem # take 99 items)))))
   \<and> getHistory (addHistoryItem refuses newItem (performAll sc steps (Holds None))) =
       Inr (ArrayValue
              (if refuses (JSON_stringify (ArrayValue (ObjectValue newItem # take 99 items)))
               then items else ObjectValue newItem # take 99 items))"
proof -
  let ?st = "performAll sc steps (Holds None)"
  have "\<exists>items. getHistory ?st = Inr (ArrayValue items) \<and> length items \<le> 200"
    by (rule performAll_capped [of _ "[]"]) simp_all
  then obtain items where cur: "getHistory ?st = Inr (ArrayValue items)"
    and cap: "length items \<le> 200"
    by blast
  obtain h where holds: "?st = Holds h" using performAll_holds by blast
  let ?t = "JSON_stringify (ArrayValue (ObjectValue newItem # take 99 items))"
  have "addHistoryItemTry refuses newItem ?st = setItem refuses ?t ?st"
    using add_writes [OF cur] by (simp add: JSON_stringify_def)
  then have add: "addHistoryItem refuses newItem ?st =
      (if refuses ?t then ?st else Holds (Some ?t))"
    unfolding addHistoryItem_def holds by simp
  have "length (ObjectValue newItem # take 99 items) \<le> 100" by simp
  moreover have "getHistory (addHistoryItem refuses newItem ?st) =
      Inr (ArrayValue (if refuses ?t then items else ObjectValue newItem # take 99 items))"
    unfolding add using cur by (simp add: JSON_stringify_def)
  ultimately show ?thesis using cur cap add by blast
qed

theorem history_stays_capped_witness:
  "getHistory (addHistoryItem roomyStorage (practiceItem 3)
     (performAll JUndefined
        [(roomyStorage, AddHistoryItem (practiceItem 1)),
         (fullStorage, AddHistoryItem (practiceItem 0)),
         (roomyStorage, MergeAndSaveHistory
            (ArrayValue [ObjectValue (practiceItem 2), ObjectValue (practiceItem 4)])),
         (roomyStorage, UpdateHistoryItem ((practiceItem 2)\<lparr>userSentence := JStr (str ''v'')\<rparr>)),
         (roomyStorage, DeleteHistoryItem (digits 1)),
         (roomyStorage, DeleteMultipleHistoryItems [digits 4, digits 9]),
         (roomyStorage, GetHistory)] (Holds None))) =
   Inr (ArrayValue [ObjectValue (practiceItem 3),
                    ObjectValue ((practiceItem 2)\<lparr>userSentence := JStr (str ''v'')\<rparr>)])"
proof -
  let ?steps = "[(roomyStorage, AddHistoryItem (practiceItem 1)),
         (fullStorage, AddHistoryItem (practiceItem 0)),
         (roomyStorage, MergeAndSaveHistory
            (ArrayValue [ObjectValue (practiceItem 2), ObjectValue (practiceItem 4)])),
         (roomyStorage, UpdateHistoryItem ((practiceItem 2)\<lparr>userSentence := JStr (str ''v'')\<rparr>)),
         (roomyStorage, DeleteHistoryItem (digits 1)),
         (roomyStorage, DeleteMultipleHistoryItems [digits 4, digits 9]),
         (roomyStorage, GetHistory)]"
  have "getHistory (performAll JUndefined ?steps (Holds None)) =
          Inr (ArrayValue [ObjectValue ((practiceItem 2)\<lparr>userSentence := JStr (str ''v'')\<rparr>)])"
    by (simp add: history_defs)
  with history_stays_capped [of JUndefined ?steps "practiceItem 3" roomyStorage]
  show ?thesis by (auto simp: roomyStorage_def)
qed

text \<open>
  The claim as it was stated fails when the write throws. One item is stored; then the
  quota of the storage is used up, \<open>setItem\<close> throws, \<open>addHistoryItem\<close> catches and
  logs, and the store is as before: after the call the new item is not in the history.
\<close>

theorem refused_add_leaves_store:
  "getHistory (addHistoryItem fullStorage (practiceItem 2)
                (performAll JUndefined [(roomyStorage, AddHistoryItem (practiceItem 1))]
                   (Holds None))) =
     Inr (ArrayValue [ObjectValue (practiceItem 1)])"
  by (simp add: history_defs)

text \<open>
  C8, as amended. The stored history is an array. If it or the imported array has a
  \<open>null\<close> entry, or if the storage refuses the write, \<open>mergeAndSaveHistory\<close> returns the
  stored history and leaves the store as it was. Otherwise there is a merged list,
  sorted by timestamp in non-increasing order, that has no two items with the same key
  (timestamp, main sentence) and that consists of the first valid item of each key, the
  stored entries counted before the imported ones: so for every valid stored item it
  holds the first valid stored item with that key, and no imported one with it. The
  first 200 items of the merged list are what is returned and persisted.
\<close>

theorem merge_prefers_stored_items:
  assumes "getHistory st = Inr (ArrayValue stored)"
  shows "if NullValue \<in> set (stored @ imported)
     then mergeAndSaveHistory sc refuses (ArrayValue imported) st = (Inr (ArrayValue stored), st)
     else \<exists>merged.
        sorted_wrt (\<lambda>a b. timestampOf b \<le> timestampOf a) merged
      \<and> distinct (map (keyPair sc) merged)
      \<and> (\<forall>x \<in> set merged.
            List.find (\<lambda>y. valid sc y \<and> keyPair sc y = keyPair sc x)
              (objects stored @ objects imported) = Some x)
      \<and> (\<forall>e \<in> set (objects stored @ objects imported).
            valid sc e \<longrightarrow> keyPair sc e \<in> keyPair sc ` set merged)
      \<and> (\<forall>e \<in> set (objects stored). valid sc e \<longrightarrow>
            (\<exists>x \<in> set merged.
               List.find (\<lambda>y. valid sc y \<and> keyPair sc y = keyPair sc e) (objects stored) = Some x))
      \<and> mergeAndSaveHistory sc refuses (ArrayValue imported) st =
          (case setItem refuses
                  (JSON_stringify (ArrayValue (map ObjectValue (take 200 merged)))) st of
             Inl e \<Rightarrow> (Inr (ArrayValue stored), st)
           | Inr st' \<Rightarrow> (Inr (ArrayValue (map ObjectValue (take 200 merged))), st'))
      \<and> (\<forall>st'. setItem refuses
                  (JSON_stringify (ArrayValue (map ObjectValue (take 200 merged)))) st = Inr st'
            \<longrightarrow> getHistory st' = Inr (ArrayValue (map ObjectValue (take 200 merged))))"
proof (cases "NullValue \<in> set (stored @ imported)")
  case True
  from mergeTry_null [OF assms True] assms True show ?thesis
    by (simp add: mergeAndSaveHistory_def)
next
  case False
  let ?xs = "objects stored @ objects imported"
  from mergeTry_merged [OF assms, of imported sc refuses] False obtain merged where
    srt: "sorted_wrt (\<lambda>a b. timestampOf b \<le> timestampOf a) merged"
    and dst: "distinct (map (key sc) merged)"
    and first: "\<forall>x \<in> set merged.
          List.find (\<lambda>y. valid sc y \<and> key sc y = key sc x) ?xs = Some x"
    and cover: "\<forall>e \<in> set ?xs. valid sc e \<longrightarrow> key sc e \<in> key sc ` set merged"
    and tried: "mergeTry sc refuses (ArrayValue imported) st =
        andThen (setItem refuses (Json (ArrayValue (map ObjectValue (take 200 merged)))) st)
          (\<lambda>st'. Inr (ArrayValue (map ObjectValue (take 200 merged)), st'))"
    unfolding objects_append by blast
  from first have valid: "\<forall>x \<in> set merged. valid sc x" by (auto simp: find_Some_iff)
  from dst valid have 1: "distinct (map (keyPair sc) merged)"
    by (simp add: distinct_key_pair)
  have 2: "\<forall>x \<in> set merged.
      List.find (\<lambda>y. valid sc y \<and> keyPair sc y = keyPair sc x) ?xs = Some x"
    using first valid by (simp add: find_key_pair)
  have 3: "\<forall>e \<in> set ?xs. valid sc e \<longrightarrow> keyPair sc e \<in> keyPair sc ` set merged"
    using cover valid by (blast intro: image_key_pair)
  have 4: "\<forall>e \<in> set (objects stored). valid sc e \<longrightarrow>
      (\<exists>x \<in> set merged.
         List.find (\<lambda>y. valid sc y \<and> keyPair sc y = keyPair sc e) (objects stored) = Some x)"
  proof (intro ballI impI)
    fix e assume e: "e \<in> set (objects stored)" "valid sc e"
    with 3 obtain x where x: "x \<in> set merged" "keyPair sc e = keyPair sc x" by auto
    with 2 have "List.find (\<lambda>y. valid sc y \<and> keyPair sc y = keyPair sc e) ?xs = Some x"
      by simp
    with e have "List.find (\<lambda>y. valid sc y \<and> keyPair sc y = keyPair sc e) (objects stored) = Some x"
      using first_is_stored [of "\<lambda>y. valid sc y \<and> keyPair sc y = keyPair sc e"
          "objects stored" "objects imported" x e]
      by simp
    with x show "\<exists>x \<in> set merged.
        List.find (\<lambda>y. valid sc y \<and> keyPair sc y = keyPair sc e) (objects stored) = Some x"
      by blast
  qed
  have 5: "mergeAndSaveHistory sc refuses (ArrayValue imported) st =
          (case setItem refuses
                  (JSON_stringify (ArrayValue (map ObjectValue (take 200 merged)))) st of
             Inl e \<Rightarrow> (Inr (ArrayValue stored), st)
           | Inr st' \<Rightarrow> (Inr (ArrayValue (map ObjectValue (take 200 merged))), st'))"
    using tried assms
    by (simp add: mergeAndSaveHistory_def JSON_stringify_def split: sum.splits)
  have 6: "\<forall>st'. setItem refuses
                  (JSON_stringify (ArrayValue (map ObjectValue (take 200 merged)))) st = Inr st'
            \<longrightarrow> getHistory st' = Inr (ArrayValue (map ObjectValue (take 200 merged)))"
    by (auto dest!: setItem_written simp: JSON_stringify_def)
  from srt 1 2 3 4 5 6 False show ?thesis by (simp only: if_False) blast
qed


theorem merge_prefers_stored_items_witness:
  "getHistory (Holds (Some (Json (ArrayValue
       [ObjectValue (practiceItem 2), ObjectValue (practiceItem 1),
        ObjectValue ((practiceItem 5)\<lparr>id' := JNum 7\<rparr>)])))) =
     Inr (ArrayValue [ObjectValue (practiceItem 2), ObjectValue (practiceItem 1),
                      ObjectValue ((practiceItem 5)\<lparr>id' := JNum 7\<rparr>)])
   \<and> (\<exists>merged.
        practiceItem 1 \<in> set merged
      \<and> (practiceItem 1)\<lparr>id' := JStr (str ''copy'')\<rparr> \<notin> set merged
      \<and> (practiceItem 1)\<lparr>id' := JStr (str ''check''), gameMode := JUndefined,
            chineseSentence := JStr (str ''other''), userSentence := JStr (str ''s'')\<rparr>
          \<notin> set merged
      \<and> (practiceItem 5)\<lparr>id' := JNum 7\<rparr> \<notin> set merged
      \<and> (practiceItem 6)\<lparr>timestamp := JStr (str ''6'')\<rparr> \<notin> set merged
      \<and> (practiceItem 7)\<lparr>chineseSentence := JNull\<rparr> \<notin> set merged
      \<and> sorted_wrt (\<lambda>a b. timestampOf b \<le> timestampOf a) merged
      \<and> mergeAndSaveHistory JUndefined roomyStorage
          (ArrayValue
             [ObjectValue ((practiceItem 1)\<lparr>id' := JStr (str ''copy'')\<rparr>),
              ObjectValue ((practiceItem 1)\<lparr>id' := JStr (str ''check''), gameMode := JUndefined,
                 chineseSentence := JStr (str ''other''), userSentence := JStr (str ''s'')\<rparr>),
              ObjectValue ((practiceItem 6)\<lparr>timestamp := JStr (str ''6'')\<rparr>),
              ObjectValue ((practiceItem 7)\<lparr>chineseSentence := JNull\<rparr>),
              ObjectValue (practiceItem 3)])
          (Holds (Some (Json (ArrayValue
             [ObjectValue (practiceItem 2), ObjectValue (practiceItem 1),
              ObjectValue ((practiceItem 5)\<lparr>id' := JNum 7\<rparr>)])))) =
          (Inr (ArrayValue (map ObjectValue (take 200 merged))),
           Holds (Some (Json (ArrayValue (map ObjectValue (take 200 merged)))))))"
proof -
  let ?copy = "(practiceItem 1)\<lparr>id' := JStr (str ''copy'')\<rparr>"
  let ?check = "(practiceItem 1)\<lparr>id' := JStr (str ''check''), gameMode := JUndefined,
                  chineseSentence := JStr (str ''other''), userSentence := JStr (str ''s'')\<rparr>"
  let ?badId = "(practiceItem 5)\<lparr>id' := JNum 7\<rparr>"
  let ?badTime = "(practiceItem 6)\<lparr>timestamp := JStr (str ''6'')\<rparr>"
  let ?badSentence = "(practiceItem 7)\<lparr>chineseSentence := JNull\<rparr>"
  let ?stored = "[ObjectValue (practiceItem 2), ObjectValue (practiceItem 1), ObjectValue ?badId]"
  let ?imported = "[ObjectValue ?copy, ObjectValue ?check, ObjectValue ?badTime,
                    ObjectValue ?badSentence, ObjectValue (practiceItem 3)]"
  let ?st = "Holds (Some (Json (ArrayValue ?stored)))"
  have cur: "getHistory ?st = Inr (ArrayValue ?stored)" by simp
  have nonull: "NullValue \<notin> set (?stored @ ?imported)" by simp
  have "\<exists>merged.
        sorted_wrt (\<lambda>a b. timestampOf b \<le> timestampOf a) merged
      \<and> (\<forall>x \<in> set merged.
            List.find (\<lambda>y. valid JUndefined y \<and> keyPair JUndefined y = keyPair JUndefined x)
              (objects ?stored @ objects ?imported) = Some x)
      \<and> (\<forall>e \<in> set (objects ?stored). valid JUndefined e \<longrightarrow>
            (\<exists>x \<in> set merged.
               List.find (\<lambda>y. valid JUndefined y \<and> keyPair JUndefined y = keyPair JUndefined e)
                 (objects ?stored) = Some x))
      \<and> mergeAndSaveHistory JUndefined roomyStorage (ArrayValue ?imported) ?st =
          (case setItem roomyStorage
                  (JSON_stringify (ArrayValue (map ObjectValue (take 200 merged)))) ?st of
             Inl e \<Rightarrow> (Inr (ArrayValue ?stored), ?st)
           | Inr st' \<Rightarrow> (Inr (ArrayValue (map ObjectValue (take 200 merged))), st'))"
    using merge_prefers_stored_items [OF cur, of ?imported JUndefined roomyStorage] nonull
    by (simp only: if_False) blast
  then obtain merged where
    srt: "sorted_wrt (\<lambda>a b. timestampOf b \<le> timestampOf a) merged"
    and first: "\<forall>x \<in> set merged.
            List.find (\<lambda>y. valid JUndefined y \<and> keyPair JUndefined y = keyPair JUndefined x)
              (objects ?stored @ objects ?imported) = Some x"
    and kept: "\<forall>e \<in> set (objects ?stored). valid JUndefined e \<longrightarrow>
            (\<exists>x \<in> set merged.
               List.find (\<lambda>y. valid JUndefined y \<and> keyPair JUndefined y = keyPair JUndefined e)
                 (objects ?stored) = Some x)"
    and res: "mergeAndSaveHistory JUndefined roomyStorage (ArrayValue ?imported) ?st =
          (case setItem roomyStorage
                  (JSON_stringify (ArrayValue (map ObjectValue (take 200 merged)))) ?st of
             Inl e \<Rightarrow> (Inr (ArrayValue ?stored), ?st)
           | Inr st' \<Rightarrow> (Inr (ArrayValue (map ObjectValue (take 200 merged))), st'))"
    by blast
  have valid: "\<forall>x \<in> set merged. valid JUndefined x"
  proof
    fix x assume "x \<in> set merged"
    with first have "List.find
        (\<lambda>y. valid JUndefined y \<and> keyPair JUndefined y = keyPair JUndefined x)
        (objects ?stored @ objects ?imported) = Some x"
      by blast
    then show "valid JUndefined x" by (rule find_valid [THEN conjunct1])
  qed
  have one: "List.find (\<lambda>y. valid JUndefined y \<and> keyPair JUndefined y = keyPair JUndefined (practiceItem 1))
               (objects ?stored) = Some (practiceItem 1)"
    by (simp add: history_defs)
  from kept have "\<exists>x \<in> set merged.
      List.find (\<lambda>y. valid JUndefined y \<and> keyPair JUndefined y = keyPair JUndefined (practiceItem 1))
        (objects ?stored) = Some x"
    by (simp add: practiceItem_valid)
  with one have 1: "practiceItem 1 \<in> set merged" by auto
  have "List.find (\<lambda>y. valid JUndefined y \<and> keyPair JUndefined y = keyPair JUndefined ?copy)
          (objects ?stored @ objects ?imported) = Some (practiceItem 1)"
    by (simp add: history_defs)
  moreover have "practiceItem 1 \<noteq> ?copy" by (simp add: practiceItem_def str_def digits.simps)
  ultimately have 2: "?copy \<notin> set merged" using first by auto
  have "List.find (\<lambda>y. valid JUndefined y \<and> keyPair JUndefined y = keyPair JUndefined ?check)
          (objects ?stored @ objects ?imported) = Some (practiceItem 1)"
    by (simp add: history_defs)
  moreover have "practiceItem 1 \<noteq> ?check" by (simp add: practiceItem_def str_def digits.simps)
  ultimately have 3: "?check \<notin> set merged" using first by auto
  have "\<not> valid JUndefined ?badId" "\<not> valid JUndefined ?badTime"
    "\<not> valid JUndefined ?badSentence"
    by (simp_all add: history_defs)
  with valid have 4: "?badId \<notin> set merged" "?badTime \<notin> set merged"
    "?badSentence \<notin> set merged"
    by blast+
  from res have 5: "mergeAndSaveHistory JUndefined roomyStorage (ArrayValue ?imported) ?st =
      (Inr (ArrayValue (map ObjectValue (take 200 merged))),
       Holds (Some (Json (ArrayValue (map ObjectValue (take 200 merged))))))"
    by (simp add: roomyStorage_def JSON_stringify_def)
  from cur 1 2 3 4 5 srt show ?thesis by blast
qed

text \<open>
  The claim as it was stated fails in five ways, each at a store and an imported array
  of its own.

  At the cap: the store holds 200 items with the timestamps 199 down to 0, as a merge
  into the empty store leaves them; the imported array holds a copy of the oldest one
  under another id, and one newer item. The stored item and its copy share timestamp and
  main sentence, and the result, the 200 newest items, contains neither.

  With a \<open>null\<close> entry in the imported array, and with a storage that refuses the
  write: the store holds an older item before a newer one, and the function returns
  that history as it is, which is not in non-increasing order.

  With two stored items of one key: only the first is in the result, the second is an
  existing item that shares its key with an imported one and is dropped.

  With a stored item whose \<open>id\<close> is not a string: the merge skips it, and the imported
  item with its timestamp and main sentence is in the result instead.
\<close>

theorem merge_drops_stored_items:
  "snd (mergeAndSaveHistory JUndefined roomyStorage
          (ArrayValue (map ObjectValue (map practiceItem (rev [0..<200])))) (Holds None)) =
     Holds (Some (Json (ArrayValue (map ObjectValue (map practiceItem (rev [0..<200]))))))
   \<and> ObjectValue (practiceItem 0) \<in> set (map ObjectValue (map practiceItem (rev [0..<200])))
   \<and> valid JUndefined (practiceItem 0)
   \<and> keyPair JUndefined ((practiceItem 0)\<lparr>id' := JStr (str ''copy'')\<rparr>) =
       keyPair JUndefined (practiceItem 0)
   \<and> fst (mergeAndSaveHistory JUndefined roomyStorage
         (ArrayValue [ObjectValue ((practiceItem 0)\<lparr>id' := JStr (str ''copy'')\<rparr>),
                      ObjectValue (practiceItem 200)])
         (Holds (Some (Json (ArrayValue (map ObjectValue (map practiceItem (rev [0..<200])))))))) =
       Inr (ArrayValue (map ObjectValue (practiceItem 200 # map practiceItem (rev [1..<200]))))
   \<and> ObjectValue (practiceItem 0) \<notin>
       set (map ObjectValue (practiceItem 200 # map practiceItem (rev [1..<200])))
   \<and> mergeAndSaveHistory JUndefined roomyStorage (ArrayValue [NullValue])
         (Holds (Some (Json (ArrayValue
            [ObjectValue (practiceItem 1), ObjectValue (practiceItem 2)])))) =
       (Inr (ArrayValue [ObjectValue (practiceItem 1), ObjectValue (practiceItem 2)]),
        Holds (Some (Json (ArrayValue
            [ObjectValue (practiceItem 1), ObjectValue (practiceItem 2)]))))
   \<and> mergeAndSaveHistory JUndefined fullStorage (ArrayValue [ObjectValue (practiceItem 3)])
         (Holds (Some (Json (ArrayValue
            [ObjectValue (practiceItem 1), ObjectValue (practiceItem 2)])))) =
       (Inr (ArrayValue [ObjectValue (practiceItem 1), ObjectValue (practiceItem 2)]),
        Holds (Some (Json (ArrayValue
            [ObjectValue (practiceItem 1), ObjectValue (practiceItem 2)]))))
   \<and> timestampOf (practiceItem 1) < timestampOf (practiceItem 2)
   \<and> valid JUndefined ((practiceItem 1)\<lparr>id' := JStr (str ''second'')\<rparr>)
   \<and> keyPair JUndefined ((practiceItem 1)\<lparr>id' := JStr (str ''second'')\<rparr>) =
       keyPair JUndefined ((practiceItem 1)\<lparr>id' := JStr (str ''imported'')\<rparr>)
   \<and> fst (mergeAndSaveHistory JUndefined roomyStorage
         (ArrayValue [ObjectValue ((practiceItem 1)\<lparr>id' := JStr (str ''imported'')\<rparr>)])
         (Holds (Some (Json (ArrayValue
            [ObjectValue (practiceItem 1),
             ObjectValue ((practiceItem 1)\<lparr>id' := JStr (str ''second'')\<rparr>)]))))) =
       Inr (ArrayValue [ObjectValue (practiceItem 1)])
   \<and> (practiceItem 1)\<lparr>id' := JStr (str ''second'')\<rparr> \<noteq> practiceItem 1
   \<and> keyPair JUndefined ((practiceItem 1)\<lparr>id' := JNum 7\<rparr>) =
       keyPair JUndefined (practiceItem 1)
   \<and> fst (mergeAndSaveHistory JUndefined roomyStorage
         (ArrayValue [ObjectValue (practiceItem 1)])
         (Holds (Some (Json (ArrayValue
            [ObjectValue ((practiceItem 1)\<lparr>id' := JNum 7\<rparr>)]))))) =
       Inr (ArrayValue [ObjectValue (practiceItem 1)])
   \<and> (practiceItem 1)\<lparr>id' := JNum 7\<rparr> \<noteq> practiceItem 1"
proof -
  let ?h = "map practiceItem (rev [0..<200])"
  let ?copy = "(practiceItem 0)\<lparr>id' := JStr (str ''copy'')\<rparr>"
  have valid: "\<forall>y\<in>set ?h. valid JUndefined y"
    by (simp add: practiceItem_valid del: upt_Suc)
  have "snd (mergeAndSaveHistory JUndefined roomyStorage (ArrayValue (map ObjectValue ?h))
          (Holds None)) = Holds (Some (Json (ArrayValue (map ObjectValue (take 200 ?h)))))"
    using valid practiceItems_distinct [of 200] practiceItems_sorted [of 200]
    by (rule merge_into_empty_store)
  then have reach: "snd (mergeAndSaveHistory JUndefined roomyStorage
      (ArrayValue (map ObjectValue ?h)) (Holds None)) =
      Holds (Some (Json (ArrayValue (map ObjectValue ?h))))"
    by simp
  have stored: "ObjectValue (practiceItem 0) \<in> set (map ObjectValue ?h)"
    by (simp del: upt_Suc)
  have same: "keyPair JUndefined ?copy = keyPair JUndefined (practiceItem 0)"
    by (simp add: keyPair_def mainSentence_def)
  then have "key JUndefined ?copy = key JUndefined (practiceItem 0)"
    by (simp add: key_def keyPair_def)
  then have known: "\<forall>e\<in>set [ObjectValue ?copy]. \<exists>y. e = ObjectValue y \<and>
      (valid JUndefined y \<longrightarrow> key JUndefined y \<in> key JUndefined ` set ?h)"
    by simp
  have fresh: "key JUndefined (practiceItem 200) \<notin> key JUndefined ` set ?h"
    by (auto dest: practiceItem_key_inj)
  have newer: "\<forall>y\<in>set ?h. timestampOf y < timestampOf (practiceItem 200)"
    by (auto simp: practiceItem_timestamp)
  have "fst (mergeAndSaveHistory JUndefined roomyStorage
              (ArrayValue ([ObjectValue ?copy] @ [ObjectValue (practiceItem 200)]))
              (Holds (Some (Json (ArrayValue (map ObjectValue ?h)))))) =
          Inr (ArrayValue (map ObjectValue (take 200 (practiceItem 200 # ?h))))"
    using valid practiceItems_distinct [of 200] practiceItems_sorted [of 200] known
      practiceItem_valid [of 200] fresh newer
    by (rule merge_one_newer)
  moreover have "take 200 (practiceItem 200 # ?h) = practiceItem 200 # take 199 ?h"
    by (simp add: take_Cons')
  moreover have "take 199 ?h = map practiceItem (rev [1..<200])"
    by (simp add: take_map take_rev drop_upt del: upt_Suc)
  ultimately have res: "fst (mergeAndSaveHistory JUndefined roomyStorage
        (ArrayValue [ObjectValue ?copy, ObjectValue (practiceItem 200)])
        (Holds (Some (Json (ArrayValue (map ObjectValue ?h)))))) =
      Inr (ArrayValue (map ObjectValue (practiceItem 200 # map practiceItem (rev [1..<200]))))"
    by simp
  have "practiceItem 0 \<notin> set (practiceItem 200 # map practiceItem (rev [1..<200]))"
  proof
    assume "practiceItem 0 \<in> set (practiceItem 200 # map practiceItem (rev [1..<200]))"
    then have "timestampOf (practiceItem 0) \<in>
                 timestampOf ` set (practiceItem 200 # map practiceItem (rev [1..<200]))"
      by (rule imageI)
    then show False by (auto simp: practiceItem_timestamp)
  qed
  then have cut: "ObjectValue (practiceItem 0) \<notin>
      set (map ObjectValue (practiceItem 200 # map practiceItem (rev [1..<200])))"
    by auto
  have null: "mergeAndSaveHistory JUndefined roomyStorage (ArrayValue [NullValue])
         (Holds (Some (Json (ArrayValue
            [ObjectValue (practiceItem 1), ObjectValue (practiceItem 2)])))) =
       (Inr (ArrayValue [ObjectValue (practiceItem 1), ObjectValue (practiceItem 2)]),
        Holds (Some (Json (ArrayValue
            [ObjectValue (practiceItem 1), ObjectValue (practiceItem 2)]))))"
    by (simp add: history_defs)
  have refused: "mergeAndSaveHistory JUndefined fullStorage
         (ArrayValue [ObjectValue (practiceItem 3)])
         (Holds (Some (Json (ArrayValue
            [ObjectValue (practiceItem 1), ObjectValue (practiceItem 2)])))) =
       (Inr (ArrayValue [ObjectValue (practiceItem 1), ObjectValue (practiceItem 2)]),
        Holds (Some (Json (ArrayValue
            [ObjectValue (practiceItem 1), ObjectValue (practiceItem 2)]))))"
    by (simp add: history_defs)
  have unsorted: "timestampOf (practiceItem 1) < timestampOf (practiceItem 2)"
    by (simp add: practiceItem_timestamp)
  have second: "valid JUndefined ((practiceItem 1)\<lparr>id' := JStr (str ''second'')\<rparr>)"
    "keyPair JUndefined ((practiceItem 1)\<lparr>id' := JStr (str ''second'')\<rparr>) =
       keyPair JUndefined ((practiceItem 1)\<lparr>id' := JStr (str ''imported'')\<rparr>)"
    "(practiceItem 1)\<lparr>id' := JStr (str ''second'')\<rparr> \<noteq> practiceItem 1"
    by (simp_all add: history_defs)
  have twice: "fst (mergeAndSaveHistory JUndefined roomyStorage
         (ArrayValue [ObjectValue ((practiceItem 1)\<lparr>id' := JStr (str ''imported'')\<rparr>)])
         (Holds (Some (Json (ArrayValue
            [ObjectValue (practiceItem 1),
             ObjectValue ((practiceItem 1)\<lparr>id' := JStr (str ''second'')\<rparr>)]))))) =
       Inr (ArrayValue [ObjectValue (practiceItem 1)])"
    by (simp add: history_defs)
  have bad: "keyPair JUndefined ((practiceItem 1)\<lparr>id' := JNum 7\<rparr>) =
       keyPair JUndefined (practiceItem 1)"
    "(practiceItem 1)\<lparr>id' := JNum 7\<rparr> \<noteq> practiceItem 1"
    by (simp_all add: history_defs)
  have invalid: "fst (mergeAndSaveHistory JUndefined roomyStorage
         (ArrayValue [ObjectValue (practiceItem 1)])
         (Holds (Some (Json (ArrayValue
            [ObjectValue ((practiceItem 1)\<lparr>id' := JNum 7\<rparr>)]))))) =
       Inr (ArrayValue [ObjectValue (practiceItem 1)])"
    by (simp add: history_defs)
  from reach stored practiceItem_valid [of 0] same res cut null refused unsorted second twice
    bad invalid
  show ?thesis by (simp only: simp_thms)
qed

text \<open>
  C9, as amended. \<open>getHistory\<close> returns a value in every state of the store and never
  throws: it returns what \<open>JSON.parse\<close> makes of the stored string when there is one and
  \<open>JSON.parse\<close> accepts it, whether or not that is an array, and the empty array when
  nothing is stored, when \<open>JSON.parse\<close> throws, and when reading the storage throws.
\<close>

theorem getHistory_total:
  "getHistory st =
     Inr (case st of
            Unavailable \<Rightarrow> ArrayValue []
          | Holds None \<Rightarrow> ArrayValue []
          | Holds (Some historyJson) \<Rightarrow>
              (case JSON_parse historyJson of Inl e \<Rightarrow> ArrayValue [] | Inr v \<Rightarrow> v))"
proof (cases st)
  case Unavailable
  then show ?thesis by simp
next
  case (Holds stored)
  show ?thesis
  proof (cases stored)
    case None
    with Holds show ?thesis by simp
  next
    case (Some historyJson)
    with Holds show ?thesis
      by (cases historyJson) (simp_all add: getHistory_def getHistoryTry_def truthy_def)
  qed
qed

theorem getHistory_total_witness:
  "getHistory (Holds None) = Inr (ArrayValue ([] :: unit json list))
   \<and> getHistory Unavailable = Inr (ArrayValue ([] :: unit json list))
   \<and> getHistory (Holds (Some Malformed)) = Inr (ArrayValue ([] :: unit json list))
   \<and> getHistory (Holds (Some EmptyText)) = Inr (ArrayValue ([] :: unit json list))
   \<and> getHistory (Holds (Some (Json (ArrayValue [ObjectValue (practiceItem 1)])))) =
       Inr (ArrayValue [ObjectValue (practiceItem 1)])"
  using getHistory_total [of "Holds None :: unit store"]
    getHistory_total [of "Unavailable :: unit store"]
    getHistory_total [of "Holds (Some (Malformed :: unit storedText))"]
    getHistory_total [of "Holds (Some (EmptyText :: unit storedText))"]
    getHistory_total [of "Holds (Some (Json (ArrayValue [ObjectValue (practiceItem 1)])))"]
  by simp

text \<open>
  The claim as it was stated fails where the stored string is JSON but not an array:
  \<open>getHistory\<close> returns what \<open>JSON.parse\<close> returns without looking at it. With the
  string \<open>5\<close> stored it returns the number 5, which is no array, and with \<open>null\<close> stored
  it returns \<open>null\<close>.
\<close>

theorem stored_number_is_returned:
  "getHistory (Holds (Some (Json (NumberValue 5)))) = Inr (NumberValue 5 :: unit json)
   \<and> \<not> isArray (NumberValue 5 :: unit json)
   \<and> getHistory (Holds (Some (Json NullValue))) = Inr (NullValue :: unit json)
   \<and> \<not> isArray (NullValue :: unit json)"
  by (simp add: history_defs)

text \<open>
  C10. When the loop ends without having parsed the headers, the buffer does not contain
  the separator: the search the fallback repeats returns \<open>-1\<close>, and its branch for a
  separator that is found cannot be taken.
\<close>

theorem fallback_never_finds_separator:
  assumes "forAwait stream initial = (s, Inr ())" and "\<not> headersParsed s"
  shows "indexOf (buffer s) separator = None"
proof -
  have "headersParsed initial \<or> indexOf (buffer initial) separator = None"
    by (simp add: initial_def)
  from forAwait_invariant [OF this, of stream] assms show ?thesis by simp
qed

theorem fallback_never_finds_separator_witness:
  "forAwait [Chunk (Some (str ''ab'')), Chunk None, Chunk (Some [LF, 0x2D, 0x2D])] initial =
     (\<lparr>buffer = str ''ab'' @ [LF, 0x2D, 0x2D], headersParsed = False, calls = []\<rparr>, Inr ())
   \<and> indexOf (str ''ab'' @ [LF, 0x2D, 0x2D]) separator = None"
proof -
  have run: "forAwait [Chunk (Some (str ''ab'')), Chunk None, Chunk (Some [LF, 0x2D, 0x2D])] initial =
     (\<lparr>buffer = str ''ab'' @ [LF, 0x2D, 0x2D], headersParsed = False, calls = []\<rparr>, Inr ())"
    by (simp add: model_defs)
  from fallback_never_finds_separator [OF run] run show ?thesis by simp
qed

end
